theory Spec2Isabelle
  imports Complex_Main "HOL-Library.Word"
begin

unbundle bit_operations_syntax

section \<open>JavaScript numbers and bitwise operators\<close>

text \<open>
  The simulator is TypeScript. The numbers of the engine are modelled as unbounded integers
  (a double holds every integer of magnitude up to \<open>2 ^ 53\<close> exactly); the setters and the
  configuration calls, which take any number from their caller, are modelled a second time
  on every double in a section of their own. The bitwise operators of JavaScript work on
  the 32-bit two's complement of their operands and give a signed 32-bit result; \<open>null\<close>
  and \<open>undefined\<close> are \<open>None\<close>, and \<open>null\<close> counts as 0 in arithmetic.
\<close>

definition js_and :: "int \<Rightarrow> int \<Rightarrow> int" where
  "js_and x y = sint ((word_of_int x :: 32 word) AND word_of_int y)"

definition js_or :: "int \<Rightarrow> int \<Rightarrow> int" where
  "js_or x y = sint ((word_of_int x :: 32 word) OR word_of_int y)"

definition js_not :: "int \<Rightarrow> int" where
  "js_not x = sint (NOT (word_of_int x :: 32 word))"

definition js_shl :: "int \<Rightarrow> nat \<Rightarrow> int" where
  "js_shl x n = sint (push_bit (n mod 32) (word_of_int x :: 32 word))"

definition js_shr :: "int \<Rightarrow> nat \<Rightarrow> int" where
  "js_shr x n = sint (signed_drop_bit (n mod 32) (word_of_int x :: 32 word))"

definition js_num :: "int option \<Rightarrow> int" where
  "js_num v = (case v of None \<Rightarrow> 0 | Some x \<Rightarrow> x)"

section \<open>Instruction codec\<close>

type_synonym OpCode = int

definition LOAD :: OpCode where "LOAD = 0"
definition STORE :: OpCode where "STORE = 1"
definition BEQ :: OpCode where "BEQ = 2"
definition CALL :: OpCode where "CALL = 3"
definition RET :: OpCode where "RET = 4"
definition ADD :: OpCode where "ADD = 5"
definition SUB :: OpCode where "SUB = 6"
definition NOR :: OpCode where "NOR = 7"
definition MUL :: OpCode where "MUL = 8"

lemmas OpCode_defs = LOAD_def STORE_def BEQ_def CALL_def RET_def ADD_def SUB_def NOR_def MUL_def

datatype error =
    InvalidRegister
  | OffsetRange
  | LabelRange
  | StartOutOfBounds
  | MemoryOutOfBounds
  | TypeError
  | RangeError

text \<open>What a call that may throw leaves behind: the object as it is when the exception
  leaves the call, or as it is when the call returns.\<close>

datatype 's effect = Threw error 's | Done 's

record Instruction =
  opcode :: OpCode
  rA :: "int option"
  rB :: "int option"
  rC :: "int option"
  offset :: "int option"
  label :: "int option"

record InstructionInit =
  init_opcode :: "OpCode option"
  init_rA :: "int option"
  init_rB :: "int option"
  init_rC :: "int option"
  init_offset :: "int option"
  init_label :: "int option"

definition validateRegister :: "int \<Rightarrow> error option" where
  "validateRegister reg = (if reg < 0 \<or> reg > 7 then Some InvalidRegister else None)"

definition setOpcode :: "Instruction \<Rightarrow> OpCode \<Rightarrow> Instruction effect" where
  "setOpcode i oc = Done (i\<lparr>opcode := oc\<rparr>)"

definition setrA :: "Instruction \<Rightarrow> int \<Rightarrow> Instruction effect" where
  "setrA i r = (case validateRegister r of Some e \<Rightarrow> Threw e i | None \<Rightarrow> Done (i\<lparr>rA := Some r\<rparr>))"

definition setrB :: "Instruction \<Rightarrow> int \<Rightarrow> Instruction effect" where
  "setrB i r = (case validateRegister r of Some e \<Rightarrow> Threw e i | None \<Rightarrow> Done (i\<lparr>rB := Some r\<rparr>))"

definition setrC :: "Instruction \<Rightarrow> int \<Rightarrow> Instruction effect" where
  "setrC i r = (case validateRegister r of Some e \<Rightarrow> Threw e i | None \<Rightarrow> Done (i\<lparr>rC := Some r\<rparr>))"

definition setOffset :: "Instruction \<Rightarrow> int \<Rightarrow> Instruction effect" where
  "setOffset i v = (if v < -16 \<or> v > 15 then Threw OffsetRange i else Done (i\<lparr>offset := Some v\<rparr>))"

definition setLabel :: "Instruction \<Rightarrow> int \<Rightarrow> Instruction effect" where
  "setLabel i l = (if l < -64 \<or> l > 63 then Threw LabelRange i else Done (i\<lparr>label := Some l\<rparr>))"

text \<open>The field initialisers of the class: opcode ADD, every other field undefined.\<close>

definition Instruction_fields :: Instruction where
  "Instruction_fields =
     \<lparr>opcode = ADD, rA = None, rB = None, rC = None, offset = None, label = None\<rparr>"

text \<open>One line of the constructor: call the setter when the initialiser has the field.\<close>

definition init_field ::
  "'a option \<Rightarrow> (Instruction \<Rightarrow> 'a \<Rightarrow> Instruction effect) \<Rightarrow> Instruction \<Rightarrow> Instruction effect" where
  "init_field v setter i = (case v of None \<Rightarrow> Done i | Some x \<Rightarrow> setter i x)"

definition and_then :: "'s effect \<Rightarrow> ('s \<Rightarrow> 's effect) \<Rightarrow> 's effect" where
  "and_then r f = (case r of Threw e s \<Rightarrow> Threw e s | Done s \<Rightarrow> f s)"

text \<open>The object a call leaves behind, thrown or not.\<close>

definition outcome :: "'s effect \<Rightarrow> 's" where
  "outcome r = (case r of Threw e s \<Rightarrow> s | Done s \<Rightarrow> s)"

text \<open>The constructor: an exception of a setter leaves no object.\<close>

definition Instruction_new :: "InstructionInit \<Rightarrow> error + Instruction" where
  "Instruction_new init =
     (case and_then (and_then (and_then (and_then (and_then
             (init_field (init_opcode init) setOpcode Instruction_fields)
             (init_field (init_rA init) setrA))
             (init_field (init_rB init) setrB))
             (init_field (init_rC init) setrC))
             (init_field (init_offset init) setOffset))
             (init_field (init_label init) setLabel)
      of Threw e _ \<Rightarrow> Inl e | Done i \<Rightarrow> Inr i)"

definition encode :: "Instruction \<Rightarrow> int" where
  "encode i =
     (let v = js_or 0 (js_shl (js_and (opcode i) 0xf) 12) in
      if opcode i = CALL then
        (let l = js_num (label i);
             l = (if l < 0 then js_and (l + 128) 0x7f else l);
             v = js_or v (js_and l 0x7f)
         in js_and v 0xffff)
      else if opcode i = LOAD \<or> opcode i = STORE \<or> opcode i = BEQ then
        (let v = js_or v (js_shl (js_and (js_num (rA i)) 0x7) 9);
             v = js_or v (js_shl (js_and (js_num (rB i)) 0x7) 6);
             off = js_num (offset i);
             off = (if off < 0 then js_and (off + 32) 0x1f else off);
             v = js_or v (js_and off 0x1f)
         in js_and v 0xffff)
      else
        (let v = js_or v (js_shl (js_and (js_num (rA i)) 0x7) 9);
             v = js_or v (js_shl (js_and (js_num (rB i)) 0x7) 6);
             v = js_or v (js_shl (js_and (js_num (rC i)) 0x7) 3)
         in js_and v 0xffff))"

definition decode :: "int \<Rightarrow> error + Instruction" where
  "decode encoded =
     (let oc = js_and (js_shr encoded 12) 0xf in
      if oc = CALL then
        (let l = js_and encoded 0x7f;
             l = (if js_and l 0x40 \<noteq> 0 then js_or l 0xffffff80 else l)
         in Instruction_new \<lparr>init_opcode = Some oc, init_rA = None, init_rB = None,
              init_rC = None, init_offset = None, init_label = Some l\<rparr>)
      else if oc = LOAD \<or> oc = STORE \<or> oc = BEQ then
        (let a = js_and (js_shr encoded 9) 0x7;
             b = js_and (js_shr encoded 6) 0x7;
             off = js_and encoded 0x1f;
             off = (if js_and off 0x10 \<noteq> 0 then js_or off 0xffffffe0 else off)
         in Instruction_new \<lparr>init_opcode = Some oc, init_rA = Some a, init_rB = Some b,
              init_rC = None, init_offset = Some off, init_label = None\<rparr>)
      else
        (let a = js_and (js_shr encoded 9) 0x7;
             b = js_and (js_shr encoded 6) 0x7;
             c = js_and (js_shr encoded 3) 0x7
         in Instruction_new \<lparr>init_opcode = Some oc, init_rA = Some a, init_rB = Some b,
              init_rC = Some c, init_offset = None, init_label = None\<rparr>))"

definition clone :: "Instruction \<Rightarrow> error + Instruction" where
  "clone i = Instruction_new \<lparr>init_opcode = Some (opcode i), init_rA = rA i, init_rB = rB i,
     init_rC = rC i, init_offset = offset i, init_label = label i\<rparr>"


section \<open>Reservation stations and the engine state\<close>

record ReservationStation =
  name :: string
  unit :: OpCode
  busy :: bool
  Operation :: "string option"
  Vj :: "int option"
  Vk :: "int option"
  Qj :: "string option"
  Qk :: "string option"
  instruction :: "Instruction option"
  result :: "int option"
  PC_Original :: "int option"
  A :: "int option"
  cycles_needed :: int
  cycles_passed :: int
  cycles_needed_to_compute_address :: int
  cycles_needed_to_read_write_from_memory :: int

text \<open>The constructor of a station. The two sub-latencies default to 0 in the source;
  a call that leaves them out passes 0 here.\<close>

definition new_ReservationStation :: "string \<Rightarrow> OpCode \<Rightarrow> int \<Rightarrow> int \<Rightarrow> int \<Rightarrow> ReservationStation" where
  "new_ReservationStation n u cn ca cm =
     \<lparr>name = n, unit = u, busy = False, Operation = None, Vj = None, Vk = None, Qj = None,
      Qk = None, instruction = None, result = None, PC_Original = None, A = None,
      cycles_needed = cn, cycles_passed = 0, cycles_needed_to_compute_address = ca,
      cycles_needed_to_read_write_from_memory = cm\<rparr>"

text \<open>
  The stations are objects held in the array \<open>RS\<close>, which only grows while the engine is
  configured. A tracker entry that refers to a station object holds its index in \<open>RS\<close>;
  the write-back tracker holds a copy of the station, as the source builds one.
\<close>

record TrackerEntry =
  t_Instruction :: Instruction
  t_clock :: int
  t_RS :: nat

record WriteBackEntry =
  wb_Instruction :: Instruction
  wb_clock :: int
  wb_RS :: ReservationStation

text \<open>
  \<open>Memory\<close> is a \<open>Uint16Array\<close> of 65536 cells and \<open>Registers\<close> one of 8 cells; the model
  keeps them as functions of the index and checks the range where the source reads or writes
  a cell that may not exist. An entry of \<open>RegisterStatus\<close> is the number 0 (\<open>None\<close>) or the
  name of a station. The source tests an entry with \<open>== 0\<close>; station names are taken to
  be strings that this comparison does not turn into the number 0 (the names \<open>ADD1\<close>,
  \<open>Load1\<close>, ... of the callers are such).
\<close>

record Tomasulo =
  Memory :: "int \<Rightarrow> 16 word"
  Registers :: "int \<Rightarrow> 16 word"
  Instructions :: "Instruction list"
  RS :: "ReservationStation list"
  CDB :: "int option"
  RegisterStatus :: "int \<Rightarrow> string option"
  PC :: int
  IssuedTracker :: "TrackerEntry list"
  ExecutedTracker :: "TrackerEntry list"
  WriteBackTracker :: "WriteBackEntry list"
  clock :: int
  isBranchPending :: bool
  branchMispredictions :: int
  branchInstructions :: int
  IssuedAfterBranch :: int
  isJumpPending :: bool

definition Memory_length :: int where
  "Memory_length = 65536"

definition Tomasulo_new :: Tomasulo where
  "Tomasulo_new =
     \<lparr>Memory = (\<lambda>_. 0), Registers = (\<lambda>_. 0), Instructions = [], RS = [], CDB = None,
      RegisterStatus = (\<lambda>_. None), PC = 0, IssuedTracker = [], ExecutedTracker = [],
      WriteBackTracker = [], clock = 0, isBranchPending = False, branchMispredictions = 0,
      branchInstructions = 0, IssuedAfterBranch = 0, isJumpPending = False\<rparr>"

subsection \<open>Configuration\<close>

definition addInstruction :: "Tomasulo \<Rightarrow> Instruction \<Rightarrow> int \<Rightarrow> Tomasulo effect" where
  "addInstruction s instr address =
     (if address < 0 \<or> address \<ge> Memory_length then Threw StartOutOfBounds s
      else Done (s\<lparr>Instructions := Instructions s @ [instr],
                   Memory := (Memory s)(address := word_of_int (encode instr))\<rparr>))"

fun addInstructions_from :: "Tomasulo \<Rightarrow> Instruction list \<Rightarrow> int \<Rightarrow> int \<Rightarrow> Tomasulo effect" where
  "addInstructions_from s [] address index = Done s"
| "addInstructions_from s (instr # rest) address index =
     (if address + index < 0 \<or> address + index \<ge> Memory_length then Threw MemoryOutOfBounds s
      else and_then (addInstruction s instr (address + index))
             (\<lambda>s'. addInstructions_from s' rest address (index + 1)))"

definition addInstructions :: "Tomasulo \<Rightarrow> Instruction list \<Rightarrow> int \<Rightarrow> Tomasulo effect" where
  "addInstructions s instructions address = addInstructions_from s instructions address 0"

definition addData :: "Tomasulo \<Rightarrow> 16 word list \<Rightarrow> int \<Rightarrow> Tomasulo effect" where
  "addData s data address =
     (if address < 0 \<or> address + int (length data) > Memory_length then Threw MemoryOutOfBounds s
      else Done (s\<lparr>Memory := (\<lambda>a. if address \<le> a \<and> a < address + int (length data)
                                     then data ! nat (a - address) else Memory s a)\<rparr>))"

definition addStartAddress :: "Tomasulo \<Rightarrow> int \<Rightarrow> Tomasulo effect" where
  "addStartAddress s address =
     (if address < 0 \<or> address \<ge> Memory_length then Threw StartOutOfBounds s
      else Done (s\<lparr>PC := address\<rparr>))"

definition addReservationStation ::
  "Tomasulo \<Rightarrow> string \<Rightarrow> OpCode \<Rightarrow> int \<Rightarrow> int \<Rightarrow> int \<Rightarrow> Tomasulo" where
  "addReservationStation s n u cn ca cm = s\<lparr>RS := RS s @ [new_ReservationStation n u cn ca cm]\<rparr>"

subsection \<open>Issue\<close>

text \<open>The first station of the wanted unit that is not busy (the \<open>for\<close> loop with its
  \<open>break\<close>), as an index, counting from \<open>k\<close>.\<close>

fun find_station :: "OpCode \<Rightarrow> ReservationStation list \<Rightarrow> nat \<Rightarrow> nat option" where
  "find_station u [] k = None"
| "find_station u (e # es) k =
     (if busy e = False \<and> unit e = u then Some k else find_station u es (Suc k))"

text \<open>Operand capture: the value of the register when no station is to write it, the
  tag of that station otherwise.\<close>

definition capture :: "Tomasulo \<Rightarrow> int \<Rightarrow> int option \<times> string option" where
  "capture s r =
     (case RegisterStatus s r of
        None \<Rightarrow> (Some (uint (Registers s r)), None)
      | Some tag \<Rightarrow> (None, Some tag))"

definition rename :: "Tomasulo \<Rightarrow> int \<Rightarrow> string \<Rightarrow> int \<Rightarrow> string option" where
  "rename s r n = (RegisterStatus s)(r := (if r = 0 then None else Some n))"

definition count_after_branch :: "Tomasulo \<Rightarrow> int" where
  "count_after_branch s = (if isBranchPending s then IssuedAfterBranch s + 1 else IssuedAfterBranch s)"

text \<open>
  Each branch of \<open>Issue\<close> runs inside the \<open>try\<close> block. \<open>clone\<close> is the one call there
  that can throw; the \<open>catch\<close> block then increments \<open>PC\<close> on the state as the statements
  before the first \<open>clone\<close> left it. The fields read with \<open>!\<close> are read with \<open>the\<close>.
\<close>

definition Issue_LOAD :: "Tomasulo \<Rightarrow> Instruction \<Rightarrow> nat \<Rightarrow> Tomasulo" where
  "Issue_LOAD s instr k =
     (let element = RS s ! k;
          (vj, qj) = capture s (the (rB instr));
          e1 = element\<lparr>Vj := vj, Qj := qj, busy := True, Operation := Some ''LOAD''\<rparr>
      in case clone instr of
           Inl err \<Rightarrow> s\<lparr>RS := (RS s)[k := e1], PC := PC s + 1\<rparr>
         | Inr c \<Rightarrow>
             s\<lparr>RS := (RS s)[k := e1\<lparr>instruction := Some c, PC_Original := Some (PC s),
                                      A := offset instr\<rparr>],
               RegisterStatus := rename s (the (rA instr)) (name element),
               IssuedTracker := IssuedTracker s @
                 [\<lparr>t_Instruction = c, t_clock = clock s, t_RS = k\<rparr>],
               PC := PC s + 1,
               IssuedAfterBranch := count_after_branch s\<rparr>)"

definition Issue_STORE :: "Tomasulo \<Rightarrow> Instruction \<Rightarrow> nat \<Rightarrow> Tomasulo" where
  "Issue_STORE s instr k =
     (let element = RS s ! k;
          (vj, qj) = capture s (the (rB instr));
          (vk, qk) = capture s (the (rA instr));
          e1 = element\<lparr>Vj := vj, Qj := qj, busy := True, A := offset instr, Vk := vk, Qk := qk\<rparr>
      in case clone instr of
           Inl err \<Rightarrow> s\<lparr>RS := (RS s)[k := e1], PC := PC s + 1\<rparr>
         | Inr c \<Rightarrow>
             s\<lparr>RS := (RS s)[k := e1\<lparr>instruction := Some c, PC_Original := Some (PC s),
                                      Operation := Some ''STORE''\<rparr>],
               IssuedTracker := IssuedTracker s @
                 [\<lparr>t_Instruction = c, t_clock = clock s, t_RS = k\<rparr>],
               IssuedAfterBranch := count_after_branch s,
               PC := PC s + 1\<rparr>)"

definition Operation_of :: "OpCode \<Rightarrow> string" where
  "Operation_of oc =
     (if oc = ADD then ''ADD'' else if oc = SUB then ''SUB'' else if oc = NOR then ''NOR''
      else ''MUL'')"

definition unit_of :: "OpCode \<Rightarrow> OpCode" where
  "unit_of oc = (if oc = MUL then MUL else if oc = NOR then NOR else if oc = ADD then ADD else ADD)"

definition Issue_ALU :: "Tomasulo \<Rightarrow> Instruction \<Rightarrow> nat \<Rightarrow> Tomasulo" where
  "Issue_ALU s instr k =
     (let element = RS s ! k;
          (vj, qj) = capture s (the (rB instr));
          (vk, qk) = capture s (the (rC instr));
          e1 = element\<lparr>Vj := vj, Qj := qj, Vk := vk, Qk := qk\<rparr>
      in case clone instr of
           Inl err \<Rightarrow> s\<lparr>RS := (RS s)[k := e1], PC := PC s + 1\<rparr>
         | Inr c \<Rightarrow>
             s\<lparr>RS := (RS s)[k := e1\<lparr>busy := True, instruction := Some c,
                                      PC_Original := Some (PC s),
                                      Operation := Some (Operation_of (opcode instr))\<rparr>],
               RegisterStatus := rename s (the (rA instr)) (name element),
               IssuedTracker := IssuedTracker s @
                 [\<lparr>t_Instruction = c, t_clock = clock s, t_RS = k\<rparr>],
               PC := PC s + 1,
               IssuedAfterBranch := count_after_branch s\<rparr>)"

definition Issue_BEQ :: "Tomasulo \<Rightarrow> Instruction \<Rightarrow> nat \<Rightarrow> Tomasulo" where
  "Issue_BEQ s instr k =
     (let element = RS s ! k;
          (vj, qj) = capture s (the (rA instr));
          (vk, qk) = capture s (the (rB instr));
          e1 = element\<lparr>Vj := vj, Qj := qj, Vk := vk, Qk := qk\<rparr>
      in case clone instr of
           Inl err \<Rightarrow> s\<lparr>RS := (RS s)[k := e1], PC := PC s + 1\<rparr>
         | Inr c \<Rightarrow>
             s\<lparr>RS := (RS s)[k := e1\<lparr>A := offset instr, Operation := Some ''BEQ'', busy := True,
                                      instruction := Some c, PC_Original := Some (PC s)\<rparr>],
               IssuedTracker := IssuedTracker s @
                 [\<lparr>t_Instruction = c, t_clock = clock s, t_RS = k\<rparr>],
               IssuedAfterBranch := count_after_branch s,
               isBranchPending := True,
               branchInstructions := branchInstructions s + 1,
               PC := PC s + 1\<rparr>)"

definition Issue_CALL :: "Tomasulo \<Rightarrow> Instruction \<Rightarrow> nat \<Rightarrow> Tomasulo" where
  "Issue_CALL s instr k =
     (let element = RS s ! k;
          e1 = element\<lparr>busy := True,
                 A := (if opcode instr = CALL then label instr else Some (uint (Registers s 1))),
                 Operation := Some (if opcode instr = CALL then ''CALL'' else ''RET'')\<rparr>
      in case clone instr of
           Inl err \<Rightarrow> s\<lparr>RS := (RS s)[k := e1], PC := PC s + 1\<rparr>
         | Inr c \<Rightarrow>
             s\<lparr>RS := (RS s)[k := e1\<lparr>instruction := Some c, PC_Original := Some (PC s)\<rparr>],
               IssuedTracker := IssuedTracker s @
                 [\<lparr>t_Instruction = c, t_clock = clock s, t_RS = k\<rparr>],
               isJumpPending := True,
               PC := PC s + 1,
               IssuedAfterBranch := count_after_branch s\<rparr>)"

text \<open>The dispatch on the opcode; no free station of the unit leaves the state as it is.\<close>

definition Issue_instr :: "Tomasulo \<Rightarrow> Instruction \<Rightarrow> Tomasulo" where
  "Issue_instr s instr =
     (if PC s < 65536 then
        if opcode instr = LOAD then
          (case find_station LOAD (RS s) 0 of None \<Rightarrow> s | Some k \<Rightarrow> Issue_LOAD s instr k)
        else if opcode instr = STORE then
          (case find_station STORE (RS s) 0 of None \<Rightarrow> s | Some k \<Rightarrow> Issue_STORE s instr k)
        else if opcode instr = ADD \<or> opcode instr = SUB \<or> opcode instr = NOR \<or> opcode instr = MUL then
          (case find_station (unit_of (opcode instr)) (RS s) 0 of
             None \<Rightarrow> s | Some k \<Rightarrow> Issue_ALU s instr k)
        else if opcode instr = BEQ then
          (case find_station BEQ (RS s) 0 of None \<Rightarrow> s | Some k \<Rightarrow> Issue_BEQ s instr k)
        else if opcode instr = CALL \<or> opcode instr = RET then
          (case find_station CALL (RS s) 0 of None \<Rightarrow> s | Some k \<Rightarrow> Issue_CALL s instr k)
        else s
      else s)"

definition Issue :: "Tomasulo \<Rightarrow> Tomasulo" where
  "Issue s =
     (if isJumpPending s then s
      else let instrAddr = PC s in
        if instrAddr < 0 \<or> instrAddr \<ge> Memory_length then s
        else let encodedInstr = uint (Memory s instrAddr) in
          if encodedInstr = 0 then s
          else (case decode encodedInstr of
                  Inl err \<Rightarrow> s\<lparr>PC := PC s + 1\<rparr>
                | Inr instr \<Rightarrow> Issue_instr s instr))"


subsection \<open>Execute\<close>

text \<open>\<open>getLatestIssueClock\<close> answers \<open>Infinity\<close> for a station with no entry.\<close>

datatype issue_clock = Finite int | Infinity

fun clock_less :: "issue_clock \<Rightarrow> issue_clock \<Rightarrow> bool" where
  "clock_less (Finite a) (Finite b) = (a < b)"
| "clock_less (Finite a) Infinity = True"
| "clock_less Infinity _ = False"

definition getLatestIssueClock :: "Tomasulo \<Rightarrow> nat \<Rightarrow> issue_clock" where
  "getLatestIssueClock s k =
     (let entries = filter (\<lambda>entry. t_RS entry = k) (IssuedTracker s) in
      if length entries = 0 then Infinity
      else Finite (fold (\<lambda>entry latestClock.
                           if t_clock entry > latestClock then t_clock entry else latestClock)
                     entries (t_clock (hd entries))))"

text \<open>Reading a cell of \<open>Memory\<close>: \<open>undefined\<close> outside the array and for the index
  \<open>null\<close>. Writing stores the value modulo \<open>2 ^ 16\<close> and does nothing outside the array.\<close>

definition Memory_read :: "Tomasulo \<Rightarrow> int option \<Rightarrow> int option" where
  "Memory_read s a =
     (case a of None \<Rightarrow> None
      | Some x \<Rightarrow> if 0 \<le> x \<and> x < Memory_length then Some (uint (Memory s x)) else None)"

definition Memory_write :: "Tomasulo \<Rightarrow> int option \<Rightarrow> int \<Rightarrow> int \<Rightarrow> 16 word" where
  "Memory_write s a v =
     (case a of None \<Rightarrow> Memory s
      | Some x \<Rightarrow> if 0 \<le> x \<and> x < Memory_length then (Memory s)(x := word_of_int v) else Memory s)"

text \<open>The assignments that free a station after it has completed.\<close>

definition release :: "ReservationStation \<Rightarrow> ReservationStation" where
  "release e = e\<lparr>busy := False, Qj := None, Qk := None, Vj := None, Vk := None, A := None,
     result := None, Operation := None, instruction := None, PC_Original := None,
     cycles_passed := 0\<rparr>"

text \<open>The assignments of the squash loop of a taken branch.\<close>

definition squash :: "ReservationStation \<Rightarrow> ReservationStation" where
  "squash rs = rs\<lparr>busy := False, result := None, instruction := None, Qj := None, Qk := None,
     Vj := None, Vk := None\<rparr>"

text \<open>\<open>Array.prototype.splice\<close> with one argument: what stays in the array.\<close>

definition splice :: "'a list \<Rightarrow> int \<Rightarrow> 'a list" where
  "splice xs start =
     (let len = int (length xs);
          actualStart = (if start < 0 then max (len + start) 0 else min start len)
      in take (nat actualStart) xs)"

text \<open>\<open>element.instruction!.clone()\<close>: a \<open>TypeError\<close> when the station holds no instruction.\<close>

definition clone_of :: "Instruction option \<Rightarrow> error + Instruction" where
  "clone_of i = (case i of None \<Rightarrow> Inl TypeError | Some x \<Rightarrow> clone x)"

definition copy_of :: "ReservationStation \<Rightarrow> int \<Rightarrow> int \<Rightarrow> ReservationStation" where
  "copy_of e ca cm =
     (new_ReservationStation (name e) (unit e) (cycles_needed e) ca cm)
       \<lparr>PC_Original := PC_Original e\<rparr>"

definition address_phase :: "Tomasulo \<Rightarrow> nat \<Rightarrow> Tomasulo" where
  "address_phase s k =
     (let element = RS s ! k in
      if busy element = True \<and> cycles_passed element = cycles_needed_to_compute_address element \<and>
         isBranchPending s = False
      then s\<lparr>RS := (RS s)[k := element\<lparr>A := Some (js_num (Vj element) + js_num (A element))\<rparr>]\<rparr>
      else s)"

definition LOAD_hazard :: "Tomasulo \<Rightarrow> nat \<Rightarrow> bool" where
  "LOAD_hazard s k =
     list_ex (\<lambda>j. let element2 = RS s ! j in
                unit element2 = STORE \<and> busy element2 = True \<and> A element2 = A (RS s ! k) \<and>
                clock_less (getLatestIssueClock s j) (getLatestIssueClock s k))
       [0..<length (RS s)]"

definition STORE_hazard :: "Tomasulo \<Rightarrow> nat \<Rightarrow> bool" where
  "STORE_hazard s k =
     list_ex (\<lambda>j. let element2 = RS s ! j in
                (unit element2 = LOAD \<or> unit element2 = STORE) \<and> busy element2 = True \<and>
                A element2 = A (RS s ! k) \<and>
                clock_less (getLatestIssueClock s j) (getLatestIssueClock s k))
       [0..<length (RS s)]"

definition stall :: "Tomasulo \<Rightarrow> nat \<Rightarrow> Tomasulo" where
  "stall s k = s\<lparr>RS := (RS s)[k := (RS s ! k)\<lparr>cycles_passed := cycles_needed (RS s ! k) - 1\<rparr>]\<rparr>"

definition execute_LOAD :: "Tomasulo \<Rightarrow> nat \<Rightarrow> error + Tomasulo" where
  "execute_LOAD s0 k =
     (let s = address_phase s0 k; element = RS s ! k in
      if busy element = True \<and> cycles_passed element = cycles_needed element \<and>
         isBranchPending s = False
      then if LOAD_hazard s k then Inr (stall s k)
           else (case clone_of (instruction element) of
                   Inl err \<Rightarrow> Inl err
                 | Inr c \<Rightarrow>
                     Inr (s\<lparr>RS := (RS s)[k := element\<lparr>result := Memory_read s (A element)\<rparr>],
                            ExecutedTracker := ExecutedTracker s @
                              [\<lparr>t_Instruction = c, t_clock = clock s, t_RS = k\<rparr>]\<rparr>))
      else Inr s)"

definition execute_STORE :: "Tomasulo \<Rightarrow> nat \<Rightarrow> error + Tomasulo" where
  "execute_STORE s0 k =
     (let s = address_phase s0 k; element = RS s ! k in
      if busy element = True \<and> cycles_passed element = cycles_needed element \<and>
         isBranchPending s = False
      then if STORE_hazard s k then Inr (stall s k)
           else (case clone_of (instruction element) of
                   Inl err \<Rightarrow> Inl err
                 | Inr c \<Rightarrow>
                     Inr (s\<lparr>Memory := Memory_write s (A element) (js_num (Vk element)),
                            ExecutedTracker := ExecutedTracker s @
                              [\<lparr>t_Instruction = c, t_clock = clock s, t_RS = k\<rparr>],
                            WriteBackTracker := WriteBackTracker s @
                              [\<lparr>wb_Instruction = c, wb_clock = clock s,
                                wb_RS = copy_of element
                                  (cycles_needed_to_compute_address element)
                                  (cycles_needed_to_read_write_from_memory element)\<rparr>],
                            RS := (RS s)[k := release element]\<rparr>))
      else Inr s)"

text \<open>The resolution of a branch: taken when \<open>Vj == Vk\<close>.\<close>

definition resolve_BEQ :: "Tomasulo \<Rightarrow> nat \<Rightarrow> Tomasulo" where
  "resolve_BEQ s k =
     (let element = RS s ! k in
      if Vj element = Vk element
      then s\<lparr>PC := js_num (A element) + js_num (PC_Original element) + 1,
             isBranchPending := False,
             branchMispredictions := branchMispredictions s + 1,
             IssuedTracker := splice (IssuedTracker s)
                                (int (length (IssuedTracker s)) - IssuedAfterBranch s),
             IssuedAfterBranch := 0,
             RS := map (\<lambda>rs. if js_num (PC_Original rs) > js_num (PC_Original element)
                              then squash rs else rs) (RS s)\<rparr>
      else s\<lparr>PC := js_num (PC_Original element) + 1, isBranchPending := False\<rparr>)"

text \<open>The end of a station that needs no broadcast (BEQ, CALL and RET): both trackers get
  an entry and the station is freed.\<close>

definition retire :: "Tomasulo \<Rightarrow> nat \<Rightarrow> error + Tomasulo" where
  "retire s k =
     (let element = RS s ! k in
      case clone_of (instruction element) of
        Inl err \<Rightarrow> Inl err
      | Inr c \<Rightarrow>
          Inr (s\<lparr>ExecutedTracker := ExecutedTracker s @
                   [\<lparr>t_Instruction = c, t_clock = clock s, t_RS = k\<rparr>],
                 WriteBackTracker := WriteBackTracker s @
                   [\<lparr>wb_Instruction = c, wb_clock = clock s, wb_RS = copy_of element 0 0\<rparr>],
                 RS := (RS s)[k := release element]\<rparr>))"

definition execute_BEQ :: "Tomasulo \<Rightarrow> nat \<Rightarrow> error + Tomasulo" where
  "execute_BEQ s k =
     (let element = RS s ! k in
      if busy element = True \<and> cycles_passed element = cycles_needed element
      then retire (resolve_BEQ s k) k
      else Inr s)"

text \<open>The jump of a CALL or a RET; a CALL also writes the link register.\<close>

definition resolve_CALL :: "Tomasulo \<Rightarrow> nat \<Rightarrow> Tomasulo" where
  "resolve_CALL s k =
     (let element = RS s ! k;
          s1 = (if Operation element = Some ''CALL''
                then s\<lparr>Registers := (Registers s)(1 := word_of_int (js_num (PC_Original element) + 1)),
                       PC := js_num (A element), isJumpPending := False\<rparr>
                else s)
      in if Operation element = Some ''RET''
         then s1\<lparr>PC := js_num (A element), isJumpPending := False\<rparr>
         else s1)"

definition execute_CALL :: "Tomasulo \<Rightarrow> nat \<Rightarrow> error + Tomasulo" where
  "execute_CALL s k =
     (let element = RS s ! k in
      if busy element = True \<and> cycles_passed element = cycles_needed element \<and>
         isBranchPending s = False
      then retire (resolve_CALL s k) k
      else Inr s)"

text \<open>The units that compute a result: the station keeps it until the write-back.\<close>

definition finish :: "Tomasulo \<Rightarrow> nat \<Rightarrow> int option \<Rightarrow> error + Tomasulo" where
  "finish s k r =
     (let element = RS s ! k in
      case clone_of (instruction element) of
        Inl err \<Rightarrow> Inl err
      | Inr c \<Rightarrow>
          Inr (s\<lparr>RS := (RS s)[k := element\<lparr>result := r\<rparr>],
                 ExecutedTracker := ExecutedTracker s @
                   [\<lparr>t_Instruction = c, t_clock = clock s, t_RS = k\<rparr>]\<rparr>))"

definition execute_ADD :: "Tomasulo \<Rightarrow> nat \<Rightarrow> error + Tomasulo" where
  "execute_ADD s k =
     (let element = RS s ! k in
      if busy element = True \<and> cycles_passed element = cycles_needed element \<and>
         isBranchPending s = False
      then
        (let r1 = (if Operation element = Some ''ADD''
                   then Some (js_num (Vj element) + js_num (Vk element)) else result element);
             r2 = (if Operation element = Some ''SUB''
                   then Some (js_num (Vj element) - js_num (Vk element)) else r1)
         in finish s k r2)
      else Inr s)"

definition execute_NOR :: "Tomasulo \<Rightarrow> nat \<Rightarrow> error + Tomasulo" where
  "execute_NOR s k =
     (let element = RS s ! k in
      if busy element = True \<and> cycles_passed element = cycles_needed element \<and>
         isBranchPending s = False
      then finish s k (Some (js_not (js_or (js_num (Vj element)) (js_num (Vk element)))))
      else Inr s)"

definition execute_MUL :: "Tomasulo \<Rightarrow> nat \<Rightarrow> error + Tomasulo" where
  "execute_MUL s k =
     (let element = RS s ! k in
      if busy element = True \<and> cycles_passed element = cycles_needed element \<and>
         isBranchPending s = False
      then finish s k (Some (js_num (Vj element) * js_num (Vk element)))
      else Inr s)"

text \<open>One turn of the loop of \<open>execute\<close>: the block of the station's unit.\<close>

definition execute_station :: "Tomasulo \<Rightarrow> nat \<Rightarrow> error + Tomasulo" where
  "execute_station s k =
     (let u = unit (RS s ! k) in
      if u = LOAD then execute_LOAD s k
      else if u = STORE then execute_STORE s k
      else if u = BEQ then execute_BEQ s k
      else if u = CALL then execute_CALL s k
      else if u = ADD then execute_ADD s k
      else if u = NOR then execute_NOR s k
      else if u = MUL then execute_MUL s k
      else Inr s)"

fun execute_loop :: "nat list \<Rightarrow> Tomasulo \<Rightarrow> error + Tomasulo" where
  "execute_loop [] s = Inr s"
| "execute_loop (k # ks) s =
     (case execute_station s k of Inl err \<Rightarrow> Inl err | Inr s' \<Rightarrow> execute_loop ks s')"

definition execute :: "Tomasulo \<Rightarrow> error + Tomasulo" where
  "execute s = execute_loop [0..<length (RS s)] s"

subsection \<open>Write-back\<close>

definition producing :: "OpCode \<Rightarrow> bool" where
  "producing u = (u = LOAD \<or> u = ADD \<or> u = NOR \<or> u = MUL)"

text \<open>The wake-up of one station by the value on the bus.\<close>

definition wakeup :: "string \<Rightarrow> int \<Rightarrow> ReservationStation \<Rightarrow> ReservationStation" where
  "wakeup n cdb element2 =
     (let e = (if Qj element2 = Some n then element2\<lparr>Vj := Some cdb, Qj := None\<rparr> else element2)
      in if Qk e = Some n then e\<lparr>Vk := Some cdb, Qk := None\<rparr> else e)"

text \<open>The broadcast of the result \<open>cdb\<close> of the station of a tracker entry: the first
  register that waits for the station, then every waiting station, then the station is freed
  and the bus is cleared.\<close>

definition broadcast :: "Tomasulo \<Rightarrow> TrackerEntry \<Rightarrow> int \<Rightarrow> error + Tomasulo" where
  "broadcast s entry cdb =
     (let k = t_RS entry; station = RS s ! k;
          s1 = (case find (\<lambda>i. RegisterStatus s i = Some (name station)) [0..7] of
                  None \<Rightarrow> s
                | Some i \<Rightarrow> s\<lparr>Registers := (Registers s)(i := (if i = 0 then 0 else word_of_int cdb)),
                              RegisterStatus := (RegisterStatus s)(i := None)\<rparr>);
          woken = map (wakeup (name station) cdb) (RS s1)
      in case clone (t_Instruction entry) of
           Inl err \<Rightarrow> Inl err
         | Inr c \<Rightarrow>
             Inr (s1\<lparr>WriteBackTracker := WriteBackTracker s1 @
                       [\<lparr>wb_Instruction = c, wb_clock = clock s1,
                         wb_RS = copy_of station (cycles_needed_to_compute_address station)
                                   (cycles_needed_to_read_write_from_memory station)\<rparr>],
                     RS := woken[k := release (woken ! k)],
                     CDB := None\<rparr>))"

fun WriteBack_loop :: "TrackerEntry list \<Rightarrow> Tomasulo \<Rightarrow> error + Tomasulo" where
  "WriteBack_loop [] s = Inr s"
| "WriteBack_loop (entry # rest) s =
     (let station = RS s ! t_RS entry in
      case result station of
        None \<Rightarrow> WriteBack_loop rest s
      | Some r \<Rightarrow>
          if cycles_passed station > cycles_needed station \<and> isBranchPending s = False \<and>
             CDB s = None
          then if producing (unit station) then broadcast s entry r
               else WriteBack_loop rest s
          else WriteBack_loop rest s)"

definition WriteBack :: "Tomasulo \<Rightarrow> error + Tomasulo" where
  "WriteBack s = WriteBack_loop (IssuedTracker s) s"

subsection \<open>The cycle\<close>

definition advance :: "ReservationStation \<Rightarrow> ReservationStation" where
  "advance rs =
     (if \<not> busy rs then rs
      else if result rs \<noteq> None \<and> cycles_passed rs = cycles_needed rs
           then rs\<lparr>cycles_passed := cycles_passed rs + 1\<rparr>
      else if cycles_passed rs > cycles_needed rs then rs
      else if Qj rs = None \<and> Qk rs = None then rs\<lparr>cycles_passed := cycles_passed rs + 1\<rparr>
      else rs)"

definition incrementCyclesPassed :: "Tomasulo \<Rightarrow> Tomasulo" where
  "incrementCyclesPassed s = s\<lparr>RS := map advance (RS s)\<rparr>"

definition step :: "Tomasulo \<Rightarrow> error + Tomasulo" where
  "step s =
     (case execute (Issue (incrementCyclesPassed s)) of
        Inl err \<Rightarrow> Inl err
      | Inr s3 \<Rightarrow>
          (case WriteBack s3 of
             Inl err \<Rightarrow> Inl err
           | Inr s4 \<Rightarrow> Inr (s4\<lparr>clock := clock s4 + 1\<rparr>)))"

fun steps :: "nat \<Rightarrow> Tomasulo \<Rightarrow> error + Tomasulo" where
  "steps 0 s = Inr s"
| "steps (Suc n) s = (case step s of Inl err \<Rightarrow> Inl err | Inr s' \<Rightarrow> steps n s')"

section \<open>The public calls on every number\<close>

text \<open>
  A field of an \<open>Instruction\<close> and an address have the type \<open>number\<close>, and the setters and
  the configuration calls receive whatever number the caller passes. The engine itself
  computes with integers only (a register, a decoded field, a clock), and the definitions
  above carry integers. This section models the same calls on every number; its names end
  in \<open>_n\<close>.

  A number is a double: \<open>Num m e\<close> is the finite value \<open>m * 2 ^ e\<close> (a double when
  \<open>\<bar>m\<bar> < 2 ^ 53\<close> and \<open>- 1074 \<le> e \<le> 971\<close>), beside NaN and the two infinities. The
  negative zero is not told from zero: no operation used here does.
\<close>

datatype number = Num int int | NaN | PosInfinity | NegInfinity

text \<open>An integer literal, an array length.\<close>

definition Whole :: "int \<Rightarrow> number" where
  "Whole k = Num k 0"

text \<open>The operators \<open><\<close>, \<open>>\<close> and \<open>>=\<close>: two finite numbers are compared over their smaller
  exponent, and a comparison with NaN is false.\<close>

fun js_lt :: "number \<Rightarrow> number \<Rightarrow> bool" where
  "js_lt (Num m e) (Num m' e') = (m * 2 ^ nat (e - min e e') < m' * 2 ^ nat (e' - min e e'))"
| "js_lt (Num m e) PosInfinity = True"
| "js_lt NegInfinity (Num m e) = True"
| "js_lt NegInfinity PosInfinity = True"
| "js_lt _ _ = False"

definition js_gt :: "number \<Rightarrow> number \<Rightarrow> bool" where
  "js_gt x y = js_lt y x"

definition js_ge :: "number \<Rightarrow> number \<Rightarrow> bool" where
  "js_ge x y = (x \<noteq> NaN \<and> y \<noteq> NaN \<and> \<not> js_lt x y)"

text \<open>
  The operator \<open>+\<close> rounds the exact sum to the nearest double, ties to the even
  significand. \<open>width m\<close> is the number of binary digits of \<open>m\<close>; a significand keeps 53 of
  them, fewer below the exponent \<open>- 1074\<close>, and a rounded value of \<open>2 ^ 1024\<close> or more is an
  infinity.
\<close>

function width :: "int \<Rightarrow> int" where
  "width m = (if m \<le> 0 then 0 else 1 + width (m div 2))"
  by pat_completeness auto
termination
  by (relation "measure nat") auto

declare width.simps [simp del]

definition finite_or_infinite :: "int \<Rightarrow> int \<Rightarrow> number" where
  "finite_or_infinite m e =
     (if width \<bar>m\<bar> + e > 1024 then (if m < 0 then NegInfinity else PosInfinity)
      else Num m e)"

definition round_double :: "int \<Rightarrow> int \<Rightarrow> number" where
  "round_double m e =
     (let k = max (width \<bar>m\<bar> - 53) (- 1074 - e) in
      if k \<le> 0 then finite_or_infinite m e
      else
        (let q = \<bar>m\<bar> div 2 ^ nat k;
             r = \<bar>m\<bar> mod 2 ^ nat k;
             half = 2 ^ (nat k - 1);
             q = (if r > half \<or> (r = half \<and> odd q) then q + 1 else q)
         in finite_or_infinite (sgn m * q) (e + k)))"

fun js_add :: "number \<Rightarrow> number \<Rightarrow> number" where
  "js_add (Num m e) (Num m' e') =
     round_double (m * 2 ^ nat (e - min e e') + m' * 2 ^ nat (e' - min e e')) (min e e')"
| "js_add NaN _ = NaN"
| "js_add _ NaN = NaN"
| "js_add PosInfinity NegInfinity = NaN"
| "js_add NegInfinity PosInfinity = NaN"
| "js_add PosInfinity _ = PosInfinity"
| "js_add _ PosInfinity = PosInfinity"
| "js_add NegInfinity _ = NegInfinity"
| "js_add _ NegInfinity = NegInfinity"

text \<open>
  The conversions. A bitwise operator takes its operand through \<open>ToInt32\<close>: the fraction is
  cut off, and NaN and the infinities are 0 (the operators of the first section then reduce
  modulo \<open>2 ^ 32\<close>). \<open>ToIntegerOrInfinity\<close> cuts the fraction off and takes NaN to 0;
  \<open>None\<close> stands for an infinity. An element of a typed array is written through a key
  that is an integer, and \<open>integer_index\<close> is that integer.
\<close>

fun ToInt32 :: "number \<Rightarrow> int" where
  "ToInt32 (Num m e) = (if e \<ge> 0 then m * 2 ^ nat e else sgn m * (\<bar>m\<bar> div 2 ^ nat (- e)))"
| "ToInt32 NaN = 0"
| "ToInt32 PosInfinity = 0"
| "ToInt32 NegInfinity = 0"

fun ToIntegerOrInfinity :: "number \<Rightarrow> int option" where
  "ToIntegerOrInfinity (Num m e) =
     Some (if e \<ge> 0 then m * 2 ^ nat e else sgn m * (\<bar>m\<bar> div 2 ^ nat (- e)))"
| "ToIntegerOrInfinity NaN = Some 0"
| "ToIntegerOrInfinity PosInfinity = None"
| "ToIntegerOrInfinity NegInfinity = None"

fun integer_index :: "number \<Rightarrow> int option" where
  "integer_index (Num m e) =
     (if e \<ge> 0 then Some (m * 2 ^ nat e)
      else if m mod 2 ^ nat (- e) = 0 then Some (m div 2 ^ nat (- e)) else None)"
| "integer_index NaN = None"
| "integer_index PosInfinity = None"
| "integer_index NegInfinity = None"

subsection \<open>The instruction\<close>

record Instruction_n =
  opcode_n :: OpCode
  rA_n :: "number option"
  rB_n :: "number option"
  rC_n :: "number option"
  offset_n :: "number option"
  label_n :: "number option"


definition validateRegister_n :: "number \<Rightarrow> error option" where
  "validateRegister_n reg =
     (if js_lt reg (Whole 0) \<or> js_gt reg (Whole 7) then Some InvalidRegister else None)"


definition setrA_n :: "Instruction_n \<Rightarrow> number \<Rightarrow> Instruction_n effect" where
  "setrA_n i r =
     (case validateRegister_n r of Some e \<Rightarrow> Threw e i | None \<Rightarrow> Done (i\<lparr>rA_n := Some r\<rparr>))"

definition setrB_n :: "Instruction_n \<Rightarrow> number \<Rightarrow> Instruction_n effect" where
  "setrB_n i r =
     (case validateRegister_n r of Some e \<Rightarrow> Threw e i | None \<Rightarrow> Done (i\<lparr>rB_n := Some r\<rparr>))"

definition setrC_n :: "Instruction_n \<Rightarrow> number \<Rightarrow> Instruction_n effect" where
  "setrC_n i r =
     (case validateRegister_n r of Some e \<Rightarrow> Threw e i | None \<Rightarrow> Done (i\<lparr>rC_n := Some r\<rparr>))"

definition setOffset_n :: "Instruction_n \<Rightarrow> number \<Rightarrow> Instruction_n effect" where
  "setOffset_n i v =
     (if js_lt v (Whole (- 16)) \<or> js_gt v (Whole 15) then Threw OffsetRange i
      else Done (i\<lparr>offset_n := Some v\<rparr>))"

definition setLabel_n :: "Instruction_n \<Rightarrow> number \<Rightarrow> Instruction_n effect" where
  "setLabel_n i l =
     (if js_lt l (Whole (- 64)) \<or> js_gt l (Whole 63) then Threw LabelRange i
      else Done (i\<lparr>label_n := Some l\<rparr>))"


definition init_field_n ::
  "'a option \<Rightarrow> (Instruction_n \<Rightarrow> 'a \<Rightarrow> Instruction_n effect) \<Rightarrow> Instruction_n \<Rightarrow>
   Instruction_n effect" where
  "init_field_n v setter i = (case v of None \<Rightarrow> Done i | Some x \<Rightarrow> setter i x)"


text \<open>\<open>v ?? 0\<close>.\<close>

definition nullish :: "number option \<Rightarrow> number" where
  "nullish v = (case v of None \<Rightarrow> Whole 0 | Some x \<Rightarrow> x)"

definition encode_n :: "Instruction_n \<Rightarrow> int" where
  "encode_n i =
     (let v = js_or 0 (js_shl (js_and (opcode_n i) 0xf) 12) in
      if opcode_n i = CALL then
        (let l = nullish (label_n i);
             l = (if js_lt l (Whole 0) then Whole (js_and (ToInt32 (js_add l (Whole 128))) 0x7f)
                  else l);
             v = js_or v (js_and (ToInt32 l) 0x7f)
         in js_and v 0xffff)
      else if opcode_n i = LOAD \<or> opcode_n i = STORE \<or> opcode_n i = BEQ then
        (let v = js_or v (js_shl (js_and (ToInt32 (nullish (rA_n i))) 0x7) 9);
             v = js_or v (js_shl (js_and (ToInt32 (nullish (rB_n i))) 0x7) 6);
             off = nullish (offset_n i);
             off = (if js_lt off (Whole 0)
                    then Whole (js_and (ToInt32 (js_add off (Whole 32))) 0x1f) else off);
             v = js_or v (js_and (ToInt32 off) 0x1f)
         in js_and v 0xffff)
      else
        (let v = js_or v (js_shl (js_and (ToInt32 (nullish (rA_n i))) 0x7) 9);
             v = js_or v (js_shl (js_and (ToInt32 (nullish (rB_n i))) 0x7) 6);
             v = js_or v (js_shl (js_and (ToInt32 (nullish (rC_n i))) 0x7) 3)
         in js_and v 0xffff))"

subsection \<open>The configuration calls\<close>

text \<open>The fields of the engine that \<open>addInstruction\<close>, \<open>addData\<close> and \<open>addStartAddress\<close>
  read or write.\<close>

record Tomasulo_n =
  Memory_n :: "int \<Rightarrow> 16 word"
  PC_n :: number
  Instructions_n :: "Instruction_n list"


text \<open>\<open>Memory[address] = value\<close>: nothing is written unless the key is an integer within the
  array.\<close>

definition Memory_put :: "(int \<Rightarrow> 16 word) \<Rightarrow> number \<Rightarrow> int \<Rightarrow> int \<Rightarrow> 16 word" where
  "Memory_put m address v =
     (case integer_index address of
        None \<Rightarrow> m
      | Some k \<Rightarrow> if 0 \<le> k \<and> k < Memory_length then m(k := word_of_int v) else m)"

definition addInstruction_n :: "Tomasulo_n \<Rightarrow> Instruction_n \<Rightarrow> number \<Rightarrow> Tomasulo_n effect" where
  "addInstruction_n s instr address =
     (if js_lt address (Whole 0) \<or> js_ge address (Whole Memory_length) then Threw StartOutOfBounds s
      else Done (s\<lparr>Instructions_n := Instructions_n s @ [instr],
                   Memory_n := Memory_put (Memory_n s) address (encode_n instr)\<rparr>))"

text \<open>\<open>Memory.set(data, offset)\<close>: a \<open>RangeError\<close> when the offset is negative or the array
  does not fit behind it.\<close>

definition Memory_set :: "Tomasulo_n \<Rightarrow> 16 word list \<Rightarrow> number \<Rightarrow> Tomasulo_n effect" where
  "Memory_set s data off =
     (case ToIntegerOrInfinity off of
        None \<Rightarrow> Threw RangeError s
      | Some targetOffset \<Rightarrow>
          if targetOffset < 0 \<or> int (length data) + targetOffset > Memory_length
          then Threw RangeError s
          else Done (s\<lparr>Memory_n := (\<lambda>a. if targetOffset \<le> a \<and> a < targetOffset + int (length data)
                                         then data ! nat (a - targetOffset) else Memory_n s a)\<rparr>))"

definition addData_n :: "Tomasulo_n \<Rightarrow> 16 word list \<Rightarrow> number \<Rightarrow> Tomasulo_n effect" where
  "addData_n s data address =
     (if js_lt address (Whole 0) \<or>
         js_gt (js_add address (Whole (int (length data)))) (Whole Memory_length)
      then Threw MemoryOutOfBounds s
      else Memory_set s data address)"

definition addStartAddress_n :: "Tomasulo_n \<Rightarrow> number \<Rightarrow> Tomasulo_n effect" where
  "addStartAddress_n s address =
     (if js_lt address (Whole 0) \<or> js_ge address (Whole Memory_length) then Threw StartOutOfBounds s
      else Done (s\<lparr>PC_n := address\<rparr>))"

subsection \<open>The integer model inside this one\<close>

text \<open>An instruction and an engine of the integer model as objects of this section, and a
  field that is not so far below 0 that adding 128 to it would round.\<close>

definition Instruction_n_of :: "Instruction \<Rightarrow> Instruction_n" where
  "Instruction_n_of i =
     \<lparr>opcode_n = opcode i, rA_n = map_option Whole (rA i), rB_n = map_option Whole (rB i),
      rC_n = map_option Whole (rC i), offset_n = map_option Whole (offset i),
      label_n = map_option Whole (label i)\<rparr>"

definition Tomasulo_n_of :: "Tomasulo \<Rightarrow> Tomasulo_n" where
  "Tomasulo_n_of s =
     \<lparr>Memory_n = Memory s, PC_n = Whole (PC s),
      Instructions_n = map Instruction_n_of (Instructions s)\<rparr>"

definition moderate :: "int option \<Rightarrow> bool" where
  "moderate v = (case v of None \<Rightarrow> True | Some x \<Rightarrow> - (2 ^ 52) \<le> x)"

section \<open>Reachable states\<close>

text \<open>
  An engine is configured by the constructor, by the configuration calls (a call that throws
  leaves the engine as it was) and, as the driver does, by writing \<open>Registers\<close> and
  \<open>Memory\<close> directly. A reachable state is a configured one after any number of cycles.
\<close>

inductive configured :: "Tomasulo \<Rightarrow> bool" where
  new: "configured Tomasulo_new"
| registers: "configured s \<Longrightarrow> configured (s\<lparr>Registers := r\<rparr>)"
| memory: "configured s \<Longrightarrow> configured (s\<lparr>Memory := m\<rparr>)"
| station: "configured s \<Longrightarrow> configured (addReservationStation s n u cn ca cm)"
| instr: "configured s \<Longrightarrow> configured (outcome (addInstruction s i a))"
| instrs: "configured s \<Longrightarrow> configured (outcome (addInstructions s is a))"
| data: "configured s \<Longrightarrow> configured (outcome (addData s d a))"
| start: "configured s \<Longrightarrow> configured (outcome (addStartAddress s a))"

inductive reachable :: "Tomasulo \<Rightarrow> bool" where
  initial: "configured s \<Longrightarrow> reachable s"
| cycle: "reachable s \<Longrightarrow> step s = Inr s' \<Longrightarrow> reachable s'"

text \<open>The state a run ends in; for a run that throws, the engine as constructed.\<close>

definition state_of :: "error + Tomasulo \<Rightarrow> Tomasulo" where
  "state_of r = (case r of Inl err \<Rightarrow> Tomasulo_new | Inr s \<Rightarrow> s)"

definition returns :: "error + Tomasulo \<Rightarrow> bool" where
  "returns r = (case r of Inl err \<Rightarrow> False | Inr s \<Rightarrow> True)"

section \<open>Programs\<close>

text \<open>The set-up of the driver: registers and memory written directly, five stations, five
  instructions at the addresses 0 to 4, start address 0.\<close>

definition mk_instr :: "OpCode \<Rightarrow> int option \<Rightarrow> int option \<Rightarrow> int option \<Rightarrow> int option \<Rightarrow> Instruction" where
  "mk_instr oc a b c off = \<lparr>opcode = oc, rA = a, rB = b, rC = c, offset = off, label = None\<rparr>"

definition driver_registers :: "int \<Rightarrow> 16 word" where
  "driver_registers = (\<lambda>_. 0)(0 := 0, 1 := 10, 2 := 5, 3 := 3, 4 := 2, 5 := 1, 6 := 7, 7 := 100)"

definition driver_stations :: Tomasulo where
  "driver_stations =
     addReservationStation (addReservationStation (addReservationStation
       (addReservationStation (addReservationStation
          (Tomasulo_new\<lparr>Registers := driver_registers,
                         Memory := (\<lambda>_. 0)(100 := 42, 101 := 77)\<rparr>)
          ''ADD1'' ADD 2 0 0) ''ADD2'' ADD 2 0 0) ''MUL1'' MUL 3 0 0)
       ''LOAD1'' LOAD 2 1 1) ''STORE1'' STORE 2 1 1"

definition driver_setup :: "Tomasulo effect" where
  "driver_setup =
     and_then (and_then (and_then (and_then (and_then
       (addInstruction driver_stations (mk_instr LOAD (Some 1) (Some 7) None (Some 0)) 0)
       (\<lambda>s. addInstruction s (mk_instr ADD (Some 2) (Some 1) (Some 3) None) 1))
       (\<lambda>s. addInstruction s (mk_instr ADD (Some 4) (Some 5) (Some 6) None) 2))
       (\<lambda>s. addInstruction s (mk_instr MUL (Some 5) (Some 2) (Some 4) None) 3))
       (\<lambda>s. addInstruction s (mk_instr STORE (Some 5) (Some 7) None (Some 1)) 4))
       (\<lambda>s. addStartAddress s 0)"

definition driver_state :: Tomasulo where
  "driver_state = outcome driver_setup"

text \<open>
  A taken branch with two instructions issued behind it: registers \<open>[0,5,5,3,2,1,7,100]\<close>,
  the program \<open>BEQ R1,R2,+2; ADD R3,R1,R1; ADD R4,R1,R1\<close> at the addresses 0 to 2, a BEQ
  station of latency 2 and two ADD stations of latency 2.
\<close>

definition branch_registers :: "int \<Rightarrow> 16 word" where
  "branch_registers = (\<lambda>_. 0)(0 := 0, 1 := 5, 2 := 5, 3 := 3, 4 := 2, 5 := 1, 6 := 7, 7 := 100)"

definition branch_stations :: Tomasulo where
  "branch_stations =
     addReservationStation (addReservationStation (addReservationStation
       (Tomasulo_new\<lparr>Registers := branch_registers\<rparr>)
       ''BEQ1'' BEQ 2 0 0) ''ADD1'' ADD 2 0 0) ''ADD2'' ADD 2 0 0"

definition branch_setup :: "Tomasulo effect" where
  "branch_setup =
     and_then (and_then (and_then
       (addInstruction branch_stations (mk_instr BEQ (Some 1) (Some 2) None (Some 2)) 0)
       (\<lambda>s. addInstruction s (mk_instr ADD (Some 3) (Some 1) (Some 1) None) 1))
       (\<lambda>s. addInstruction s (mk_instr ADD (Some 4) (Some 1) (Some 1) None) 2))
       (\<lambda>s. addStartAddress s 0)"

definition branch_state :: Tomasulo where
  "branch_state = outcome branch_setup"

text \<open>The branch program in its third cycle, when \<open>execute\<close> begins: the branch has waited
  its two cycles and both additions have been issued behind it.\<close>

definition branch_pre :: Tomasulo where
  "branch_pre = Issue (incrementCyclesPassed (state_of (steps 2 branch_state)))"

definition BEQ_sample :: Instruction where
  "BEQ_sample = mk_instr BEQ (Some 1) (Some 2) None (Some 2)"

text \<open>The branch program with \<open>ADD R4,R1,R6\<close> at the address 3, where the taken branch
  goes on.\<close>

definition rename_state :: Tomasulo where
  "rename_state = outcome (addInstruction branch_state (mk_instr ADD (Some 4) (Some 1) (Some 6) None) 3)"


text \<open>The same program without the two additions behind the branch: \<open>BEQ R1,R2,+2\<close> at
  the address 0 and \<open>ADD R4,R1,R6\<close> at the address 3, the words between them empty.\<close>

definition skip_setup :: "Tomasulo effect" where
  "skip_setup =
     and_then (and_then
       (addInstruction branch_stations (mk_instr BEQ (Some 1) (Some 2) None (Some 2)) 0)
       (\<lambda>s. addInstruction s (mk_instr ADD (Some 4) (Some 1) (Some 6) None) 3))
       (\<lambda>s. addStartAddress s 0)"

definition skip_state :: Tomasulo where
  "skip_state = outcome skip_setup"

text \<open>
  Two branches in flight: the registers of the branch program, a BEQ station of latency 6,
  a BEQ station of latency 1 and an ADD station of latency 2, and the program
  \<open>BEQ R1,R2,+3; BEQ R3,R4,+1; ADD R5,R6,R7\<close> at the addresses 0 to 2. The first branch
  is taken (\<open>R1 = R2\<close>) and goes to the address 4; the second is not (\<open>R3 \<noteq> R4\<close>).
\<close>

definition nested_stations :: Tomasulo where
  "nested_stations =
     addReservationStation (addReservationStation (addReservationStation
       (Tomasulo_new\<lparr>Registers := branch_registers\<rparr>)
       ''BEQ1'' BEQ 6 0 0) ''BEQ2'' BEQ 1 0 0) ''ADD1'' ADD 2 0 0"

definition nested_setup :: "Tomasulo effect" where
  "nested_setup =
     and_then (and_then (and_then
       (addInstruction nested_stations (mk_instr BEQ (Some 1) (Some 2) None (Some 3)) 0)
       (\<lambda>s. addInstruction s (mk_instr BEQ (Some 3) (Some 4) None (Some 1)) 1))
       (\<lambda>s. addInstruction s (mk_instr ADD (Some 5) (Some 6) (Some 7) None) 2))
       (\<lambda>s. addStartAddress s 0)"

definition nested_state :: Tomasulo where
  "nested_state = outcome nested_setup"

text \<open>
  A store and a younger load of the same address: registers \<open>[0,10,5,3,2,1,7,100]\<close>,
  \<open>Memory[100] = 42\<close>, the program \<open>MUL R5,R2,R4; STORE R5,0(R7); LOAD R1,0(R7)\<close> at the
  addresses 0 to 2, with the MUL, STORE and LOAD stations of the driver.
\<close>

definition hazard_stations :: Tomasulo where
  "hazard_stations =
     addReservationStation (addReservationStation (addReservationStation
       (Tomasulo_new\<lparr>Registers := driver_registers, Memory := (\<lambda>_. 0)(100 := 42)\<rparr>)
       ''MUL1'' MUL 3 0 0) ''STORE1'' STORE 2 1 1) ''LOAD1'' LOAD 2 1 1"

definition hazard_setup :: "Tomasulo effect" where
  "hazard_setup =
     and_then (and_then (and_then
       (addInstruction hazard_stations (mk_instr MUL (Some 5) (Some 2) (Some 4) None) 0)
       (\<lambda>s. addInstruction s (mk_instr STORE (Some 5) (Some 7) None (Some 0)) 1))
       (\<lambda>s. addInstruction s (mk_instr LOAD (Some 1) (Some 7) None (Some 0)) 2))
       (\<lambda>s. addStartAddress s 0)"

definition hazard_state :: Tomasulo where
  "hazard_state = outcome hazard_setup"

text \<open>A program that names register 0 as its destination: \<open>ADD R0,R1,R2\<close> at the address
  0, on the registers of the driver and one ADD station of latency 2.\<close>

definition zero_setup :: "Tomasulo effect" where
  "zero_setup =
     and_then
       (addInstruction
          (addReservationStation (Tomasulo_new\<lparr>Registers := driver_registers\<rparr>) ''ADD1'' ADD 2 0 0)
          (mk_instr ADD (Some 0) (Some 1) (Some 2) None) 0)
       (\<lambda>s. addStartAddress s 0)"

definition zero_state :: Tomasulo where
  "zero_state = outcome zero_setup"

text \<open>\<open>RET\<close> as the assembler of the user interface builds it, and a \<open>LOAD\<close> with a
  negative offset.\<close>

definition RET_instruction :: Instruction where
  "RET_instruction = \<lparr>opcode = RET, rA = None, rB = None, rC = None, offset = None, label = None\<rparr>"

definition LOAD_sample :: Instruction where
  "LOAD_sample = \<lparr>opcode = LOAD, rA = Some 1, rB = Some 7, rC = None, offset = Some (-3), label = None\<rparr>"

text \<open>An initialiser with the opcode alone.\<close>

definition empty_init :: InstructionInit where
  "empty_init = \<lparr>init_opcode = Some LOAD, init_rA = None, init_rB = None, init_rC = None,
     init_offset = None, init_label = None\<rparr>"

section \<open>Predicates of the properties\<close>

text \<open>A valid instruction has exactly the fields of its opcode class, each in its range.\<close>

definition in_range :: "int option \<Rightarrow> int \<Rightarrow> int \<Rightarrow> bool" where
  "in_range v lo hi = (case v of None \<Rightarrow> False | Some x \<Rightarrow> lo \<le> x \<and> x \<le> hi)"

definition valid_instruction :: "Instruction \<Rightarrow> bool" where
  "valid_instruction i =
     (if opcode i = LOAD \<or> opcode i = STORE \<or> opcode i = BEQ then
        in_range (rA i) 0 7 \<and> in_range (rB i) 0 7 \<and> in_range (offset i) (-16) 15 \<and>
        rC i = None \<and> label i = None
      else if opcode i = CALL then
        in_range (label i) (-64) 63 \<and>
        rA i = None \<and> rB i = None \<and> rC i = None \<and> offset i = None
      else if opcode i = RET then
        rA i = None \<and> rB i = None \<and> rC i = None \<and> offset i = None \<and> label i = None
      else if opcode i = ADD \<or> opcode i = SUB \<or> opcode i = NOR \<or> opcode i = MUL then
        in_range (rA i) 0 7 \<and> in_range (rB i) 0 7 \<and> in_range (rC i) 0 7 \<and>
        offset i = None \<and> label i = None
      else False)"



text \<open>An operand slot holds a value or a tag, never both.\<close>

definition exclusive :: "ReservationStation \<Rightarrow> bool" where
  "exclusive r = ((Vj r \<noteq> None \<longrightarrow> Qj r = None) \<and> (Vk r \<noteq> None \<longrightarrow> Qk r = None))"

definition operands_exclusive :: "Tomasulo \<Rightarrow> bool" where
  "operands_exclusive s = list_all exclusive (RS s)"

text \<open>
  The state of a cycle when its write-back phase begins, and what that phase did: every
  broadcast appends one entry to the write-back tracker, frees its station and writes at most
  one register.
\<close>

definition before_WriteBack :: "Tomasulo \<Rightarrow> Tomasulo" where
  "before_WriteBack s = state_of (execute (Issue (incrementCyclesPassed s)))"

definition broadcasts :: "Tomasulo \<Rightarrow> Tomasulo \<Rightarrow> nat" where
  "broadcasts s s' = length (WriteBackTracker s') - length (WriteBackTracker s)"

definition released :: "Tomasulo \<Rightarrow> Tomasulo \<Rightarrow> nat list" where
  "released s s' = filter (\<lambda>k. busy (RS s ! k) \<and> \<not> busy (RS s' ! k)) [0..<length (RS s)]"

definition written :: "Tomasulo \<Rightarrow> Tomasulo \<Rightarrow> int list" where
  "written s s' = filter (\<lambda>i. Registers s' i \<noteq> Registers s i) [0..7]"

text \<open>The counter of the instructions issued behind a pending branch never exceeds the
  length of the issued tracker.\<close>

definition tracker_count :: "Tomasulo \<Rightarrow> bool" where
  "tracker_count s = (0 \<le> IssuedAfterBranch s \<and> IssuedAfterBranch s \<le> int (length (IssuedTracker s)))"

text \<open>
  A well-formed engine: a busy station holds an instruction that can be cloned and the
  address it was fetched from, a busy BEQ station holds its offset, every entry of the issued
  tracker holds an instruction that can be cloned, and the counter of speculative issues is
  within the tracker.
\<close>

definition station_ok :: "ReservationStation \<Rightarrow> bool" where
  "station_ok r =
     (busy r \<longrightarrow>
        (case instruction r of None \<Rightarrow> False | Some i \<Rightarrow> clone i = Inr i) \<and>
        PC_Original r \<noteq> None \<and> (unit r = BEQ \<longrightarrow> A r \<noteq> None))"

definition entry_ok :: "TrackerEntry \<Rightarrow> bool" where
  "entry_ok entry = (clone (t_Instruction entry) = Inr (t_Instruction entry))"

definition well_formed :: "Tomasulo \<Rightarrow> bool" where
  "well_formed s =
     (list_all station_ok (RS s) \<and> list_all entry_ok (IssuedTracker s) \<and> tracker_count s)"

text \<open>The value of the finite number \<open>Num m e\<close>.\<close>

definition value_of :: "int \<Rightarrow> int \<Rightarrow> real" where
  "value_of m e = of_int m * 2 powr of_int e"

text \<open>A number below or above a bound: a finite number by its value, and the infinity of
  that side. NaN is neither.\<close>

definition below :: "number \<Rightarrow> real \<Rightarrow> bool" where
  "below x c =
     (case x of Num m e \<Rightarrow> value_of m e < c | NaN \<Rightarrow> False | PosInfinity \<Rightarrow> False
      | NegInfinity \<Rightarrow> True)"

definition above :: "number \<Rightarrow> real \<Rightarrow> bool" where
  "above x c =
     (case x of Num m e \<Rightarrow> c < value_of m e | NaN \<Rightarrow> False | PosInfinity \<Rightarrow> True
      | NegInfinity \<Rightarrow> False)"

definition outside :: "number \<Rightarrow> real \<Rightarrow> real \<Rightarrow> bool" where
  "outside x lo hi = (below x lo \<or> above x hi)"


text \<open>An address below 0, or at or above the length of \<open>Memory\<close>.\<close>

definition out_of_bounds :: "number \<Rightarrow> bool" where
  "out_of_bounds x =
     (case x of Num m e \<Rightarrow> value_of m e < 0 \<or> 65536 \<le> value_of m e | NaN \<Rightarrow> False
      | PosInfinity \<Rightarrow> True | NegInfinity \<Rightarrow> True)"
section \<open>The codec: encoding and decoding agree\<close>

lemma js_and_int: "js_and x y = signed_take_bit 31 (x AND y)"
  unfolding js_and_def by (simp add: word_wi_log_defs sint_sbintrunc')

lemma js_or_int: "js_or x y = signed_take_bit 31 (x OR y)"
  unfolding js_or_def by (simp add: word_wi_log_defs sint_sbintrunc')

lemma js_shl_int: "n < 32 \<Longrightarrow> js_shl x n = signed_take_bit 31 (push_bit n x)"
  unfolding js_shl_def
  by (simp add: sint_sbintrunc' flip: of_int_push_bit) 

lemma js_shr_int: "n < 32 \<Longrightarrow> js_shr x n = drop_bit n (signed_take_bit 31 x)"
  unfolding js_shr_def
  by (simp add: sint_signed_drop_bit_eq sint_sbintrunc') 

lemma js_and_mask: "k < 32 \<Longrightarrow> js_and x (mask k) = take_bit k x"
  unfolding js_and_int
  apply (simp flip: take_bit_eq_mask)
  apply (rule bit_eqI)
  apply (auto simp: bit_simps)
  done

lemma js_and_7: "js_and x 7 = take_bit 3 x"
  using js_and_mask [of 3 x] by (simp add: mask_eq_exp_minus_1)
lemma js_and_15: "js_and x 15 = take_bit 4 x"
  using js_and_mask [of 4 x] by (simp add: mask_eq_exp_minus_1)
lemma js_and_31: "js_and x 31 = take_bit 5 x"
  using js_and_mask [of 5 x] by (simp add: mask_eq_exp_minus_1)
lemma js_and_127: "js_and x 127 = take_bit 7 x"
  using js_and_mask [of 7 x] by (simp add: mask_eq_exp_minus_1)
lemma js_and_65535: "js_and x 65535 = take_bit 16 x"
  using js_and_mask [of 16 x] by (simp add: mask_eq_exp_minus_1)

lemma stb_or: "signed_take_bit 31 (x OR y :: int) = signed_take_bit 31 x OR signed_take_bit 31 y"
  by (rule bit_eqI) (auto simp: bit_simps)

lemma stb_field: "n + k \<le> 31 \<Longrightarrow> signed_take_bit 31 (push_bit n (take_bit k x) :: int) = push_bit n (take_bit k x)"
  by (rule bit_eqI) (auto simp: bit_simps min_def)

lemma stb_take: "k \<le> 31 \<Longrightarrow> signed_take_bit 31 (take_bit k x :: int) = take_bit k x"
  using stb_field [of 0 k x] by simp

lemmas js_bits = js_and_7 js_and_15 js_and_31 js_and_127 js_and_65535 js_shl_int js_shr_int js_or_int
  stb_or stb_field stb_take

lemma enc_mem_bits: "js_and (js_or (js_or (js_or (js_or 0 (js_shl (js_and oc 15) 12)) (js_shl (js_and a 7) 9)) (js_shl (js_and b 7) 6)) (js_and f 31)) 65535
   = push_bit 12 (take_bit 4 oc) OR push_bit 9 (take_bit 3 a) OR push_bit 6 (take_bit 3 b) OR take_bit 5 f"
  apply (simp add: js_bits)
  apply (rule bit_eqI)
  apply (auto simp: bit_simps)
  done

lemma enc_alu_bits: "js_and (js_or (js_or (js_or (js_or 0 (js_shl (js_and oc 15) 12)) (js_shl (js_and a 7) 9)) (js_shl (js_and b 7) 6)) (js_shl (js_and c 7) 3)) 65535
   = push_bit 12 (take_bit 4 oc) OR push_bit 9 (take_bit 3 a) OR push_bit 6 (take_bit 3 b) OR push_bit 3 (take_bit 3 c)"
  apply (simp add: js_bits)
  apply (rule bit_eqI)
  apply (auto simp: bit_simps)
  done

lemma enc_call_bits: "js_and (js_or (js_or 0 (js_shl (js_and oc 15) 12)) (js_and l 127)) 65535
   = push_bit 12 (take_bit 4 oc) OR take_bit 7 l"
  apply (simp add: js_bits)
  apply (rule bit_eqI)
  apply (auto simp: bit_simps)
  done

lemma dec_oc: "js_and (js_shr (push_bit 12 (take_bit 4 oc) OR push_bit 9 (take_bit 3 a) OR push_bit 6 (take_bit 3 b) OR take_bit 6 f) 12) 15 = take_bit 4 oc"
  apply (simp add: js_bits)
  apply (rule bit_eqI)
  apply (auto simp: bit_simps)
  done

lemma dec_a: "js_and (js_shr (push_bit 12 (take_bit 4 oc) OR push_bit 9 (take_bit 3 a) OR push_bit 6 (take_bit 3 b) OR take_bit 6 f) 9) 7 = take_bit 3 a"
  apply (simp add: js_bits)
  apply (rule bit_eqI)
  apply (auto simp: bit_simps)
  done

lemma dec_b: "js_and (js_shr (push_bit 12 (take_bit 4 oc) OR push_bit 9 (take_bit 3 a) OR push_bit 6 (take_bit 3 b) OR take_bit 6 f) 6) 7 = take_bit 3 b"
  apply (simp add: js_bits)
  apply (rule bit_eqI)
  apply (auto simp: bit_simps)
  done

lemma dec_c: "js_and (js_shr (push_bit 12 (take_bit 4 oc) OR push_bit 9 (take_bit 3 a) OR push_bit 6 (take_bit 3 b) OR push_bit 3 (take_bit 3 c)) 3) 7 = take_bit 3 c"
  apply (simp add: js_bits)
  apply (rule bit_eqI)
  apply (auto simp: bit_simps)
  done

lemma dec_off: "js_and (push_bit 12 (take_bit 4 oc) OR push_bit 9 (take_bit 3 a) OR push_bit 6 (take_bit 3 b) OR take_bit 5 f) 31 = take_bit 5 f"
  apply (simp add: js_bits)
  apply (rule bit_eqI)
  apply (auto simp: bit_simps)
  done

lemma dec_call_oc: "js_and (js_shr (push_bit 12 (take_bit 4 oc) OR take_bit 7 l) 12) 15 = take_bit 4 oc"
  apply (simp add: js_bits)
  apply (rule bit_eqI)
  apply (auto simp: bit_simps)
  done

lemma dec_label: "js_and (push_bit 12 (take_bit 4 oc) OR take_bit 7 l) 127 = take_bit 7 l"
  apply (simp add: js_bits)
  apply (rule bit_eqI)
  apply (auto simp: bit_simps)
  done


lemma js_and_bit: "k < 31 \<Longrightarrow> js_and x (2 ^ k) \<noteq> 0 \<longleftrightarrow> bit x k"
proof -
  assume k: "k < 31"
  have "signed_take_bit 31 (x AND 2 ^ k) = x AND 2 ^ k"
    using k by (intro bit_eqI) (auto simp: bit_simps min_def)
  then show ?thesis
    by (simp add: js_and_int and_exp_eq_0_iff_not_bit)
qed

lemma sign_extend:
  assumes "k < 31" "m = Suc k" "- (2 ^ k) \<le> f" "f < 2 ^ k"
    and e: "\<And>n. bit e n \<longleftrightarrow> k < n \<and> n < 32"
  shows "(if js_and (take_bit m f) (2 ^ k) \<noteq> 0 then js_or (take_bit m f) e else take_bit m f) = f"
proof -
  have f: "signed_take_bit k f = f"
    using assms by (simp add: signed_take_bit_int_eq_self)
  have c: "js_and (take_bit m f) (2 ^ k) \<noteq> 0 \<longleftrightarrow> bit f k"
    using assms(1,2) by (simp add: js_and_bit bit_simps)
  have neg: "js_or (take_bit m f) e = signed_take_bit k f" if "bit f k"
    unfolding js_or_int using that assms(1,2)
    by (intro bit_eqI) (auto simp: bit_simps e min_def not_less less_Suc_eq_le)
  have pos: "take_bit m f = signed_take_bit k f" if "\<not> bit f k"
    using that assms(2) by (intro bit_eqI) (auto simp: bit_simps min_def not_less less_Suc_eq_le)
  show ?thesis using c neg pos f by simp
qed

lemma ext5: "bit (4294967264::int) n \<longleftrightarrow> 4 < n \<and> n < 32"
proof -
  have "(4294967264::int) = push_bit 5 (mask 27)"
    by (simp add: mask_eq_exp_minus_1 push_bit_eq_mult)
  then show ?thesis by (auto simp only: bit_push_bit_iff bit_mask_iff possible_bit_int)
qed

lemma ext7: "bit (4294967168::int) n \<longleftrightarrow> 6 < n \<and> n < 32"
proof -
  have "(4294967168::int) = push_bit 7 (mask 25)"
    by (simp add: mask_eq_exp_minus_1 push_bit_eq_mult)
  then show ?thesis by (auto simp only: bit_push_bit_iff bit_mask_iff possible_bit_int)
qed

lemma sx5:
  assumes "-16 \<le> f" "f \<le> 15"
  shows "(let off = take_bit 5 f in if js_and off 0x10 \<noteq> 0 then js_or off 0xffffffe0 else off) = f"
  using sign_extend [of 4 5 f 4294967264, OF _ _ _ _ ext5] assms by simp

lemma sx7:
  assumes "-64 \<le> f" "f \<le> 63"
  shows "(let l = take_bit 7 f in if js_and l 0x40 \<noteq> 0 then js_or l 0xffffff80 else l) = f"
  using sign_extend [of 6 7 f 4294967168, OF _ _ _ _ ext7] assms by simp

lemmas ctor_defs = Instruction_new_def and_then_def init_field_def setOpcode_def setrA_def
  setrB_def setrC_def setOffset_def setLabel_def validateRegister_def Instruction_fields_def

lemma roundtrip_mem:
  assumes "valid_instruction i" "opcode i = LOAD \<or> opcode i = STORE \<or> opcode i = BEQ"
  shows "decode (encode i) = Inr i"
proof -
  from assms obtain a b f where
    ab: "rA i = Some a" "0 \<le> a" "a \<le> 7" "rB i = Some b" "0 \<le> b" "b \<le> 7"
    and f: "offset i = Some f" "-16 \<le> f" "f \<le> 15" and n: "rC i = None" "label i = None"
    by (auto simp: valid_instruction_def in_range_def split: option.splits)
  have oc: "take_bit 4 (opcode i) = opcode i"
    using assms(2) by (auto simp: OpCode_defs)
  have ta: "take_bit 3 a = a" and tb: "take_bit 3 b = b"
    using ab by (simp_all add: take_bit_int_eq_self)
  have t5: "take_bit 5 (f + 32) = take_bit 5 f"
    by (simp add: take_bit_eq_mod)
  have e: "encode i = push_bit 12 (take_bit 4 (opcode i)) OR push_bit 9 (take_bit 3 a) OR
      push_bit 6 (take_bit 3 b) OR take_bit 5 f"
    using assms(2) enc_mem_bits [of "opcode i" a b f] enc_mem_bits [of "opcode i" a b "take_bit 5 f"]
    by (auto simp: encode_def Let_def ab f js_num_def OpCode_defs js_and_31 t5)
  have e6: "encode i = push_bit 12 (take_bit 4 (opcode i)) OR push_bit 9 (take_bit 3 a) OR
      push_bit 6 (take_bit 3 b) OR take_bit 6 (take_bit 5 f)"
    by (simp add: e)
  have d1: "js_and (js_shr (encode i) 12) 15 = opcode i"
    unfolding e6 dec_oc by (rule oc)
  have d2: "js_and (js_shr (encode i) 9) 7 = a"
    unfolding e6 dec_a by (rule ta)
  have d3: "js_and (js_shr (encode i) 6) 7 = b"
    unfolding e6 dec_b by (rule tb)
  have d4: "js_and (encode i) 31 = take_bit 5 f"
    unfolding e dec_off ..
  have d5: "(if js_and (take_bit 5 f) 16 \<noteq> 0 then js_or (take_bit 5 f) 4294967264 else take_bit 5 f) = f"
    using sx5 [OF f(2,3)] by (simp add: Let_def)
  have "decode (encode i) = Instruction_new \<lparr>init_opcode = Some (opcode i), init_rA = Some a,
      init_rB = Some b, init_rC = None, init_offset = Some f, init_label = None\<rparr>"
    using assms(2) d5 by (auto simp: decode_def Let_def d1 d2 d3 d4 OpCode_defs)
  also have "\<dots> = Inr i"
    using ab f n by (simp add: ctor_defs)
  finally show ?thesis .
qed


lemma roundtrip_call:
  assumes "valid_instruction i" "opcode i = CALL"
  shows "decode (encode i) = Inr i"
proof -
  from assms obtain l where
    l: "label i = Some l" "-64 \<le> l" "l \<le> 63"
    and n: "rA i = None" "rB i = None" "rC i = None" "offset i = None"
    by (auto simp: valid_instruction_def in_range_def OpCode_defs split: option.splits)
  have oc: "take_bit 4 (opcode i) = opcode i"
    using assms(2) by (simp add: OpCode_defs)
  have t7: "take_bit 7 (l + 128) = take_bit 7 l"
    by (simp add: take_bit_eq_mod)
  have e: "encode i = push_bit 12 (take_bit 4 (opcode i)) OR take_bit 7 l"
    using assms(2) enc_call_bits [of "opcode i" l] enc_call_bits [of "opcode i" "take_bit 7 l"]
    by (auto simp: encode_def Let_def l js_num_def js_and_127 t7)
  have d1: "js_and (js_shr (encode i) 12) 15 = opcode i"
    unfolding e dec_call_oc by (rule oc)
  have d2: "js_and (encode i) 127 = take_bit 7 l"
    unfolding e dec_label ..
  have d3: "(if js_and (take_bit 7 l) 64 \<noteq> 0 then js_or (take_bit 7 l) 4294967168 else take_bit 7 l) = l"
    using sx7 [OF l(2,3)] by (simp add: Let_def)
  have "decode (encode i) = Instruction_new \<lparr>init_opcode = Some (opcode i), init_rA = None,
      init_rB = None, init_rC = None, init_offset = None, init_label = Some l\<rparr>"
    using assms(2) d3 by (auto simp: decode_def Let_def d1 d2)
  also have "\<dots> = Inr i"
    using l n by (simp add: ctor_defs)
  finally show ?thesis .
qed

lemma decode_encode_reg:
  assumes "opcode i = RET \<or> opcode i = ADD \<or> opcode i = SUB \<or> opcode i = NOR \<or> opcode i = MUL"
    and "0 \<le> a" "a \<le> 7" "0 \<le> b" "b \<le> 7" "0 \<le> c" "c \<le> 7"
    and "js_num (rA i) = a" "js_num (rB i) = b" "js_num (rC i) = c"
  shows "decode (encode i) = Inr \<lparr>opcode = opcode i, rA = Some a, rB = Some b, rC = Some c,
     offset = None, label = None\<rparr>"
proof -
  have oc: "take_bit 4 (opcode i) = opcode i"
    using assms(1) by (auto simp: OpCode_defs)
  have ta: "take_bit 3 a = a" and tb: "take_bit 3 b = b" and tc: "take_bit 3 c = c"
    using assms by (simp_all add: take_bit_int_eq_self)
  have e: "encode i = push_bit 12 (take_bit 4 (opcode i)) OR push_bit 9 (take_bit 3 a) OR
      push_bit 6 (take_bit 3 b) OR push_bit 3 (take_bit 3 c)"
    using assms(1) enc_alu_bits [of "opcode i" a b c]
    by (auto simp: encode_def Let_def assms(8-10) OpCode_defs)
  have e6: "encode i = push_bit 12 (take_bit 4 (opcode i)) OR push_bit 9 (take_bit 3 a) OR
      push_bit 6 (take_bit 3 b) OR take_bit 6 (push_bit 3 (take_bit 3 c))"
    unfolding e by (rule arg_cong [where f = "\<lambda>x. _ OR x"], rule bit_eqI) (auto simp: bit_simps)
  have d1: "js_and (js_shr (encode i) 12) 15 = opcode i"
    unfolding e6 dec_oc by (rule oc)
  have d2: "js_and (js_shr (encode i) 9) 7 = a"
    unfolding e6 dec_a by (rule ta)
  have d3: "js_and (js_shr (encode i) 6) 7 = b"
    unfolding e6 dec_b by (rule tb)
  have d4: "js_and (js_shr (encode i) 3) 7 = c"
    unfolding e dec_c by (rule tc)
  have "decode (encode i) = Instruction_new \<lparr>init_opcode = Some (opcode i), init_rA = Some a,
      init_rB = Some b, init_rC = Some c, init_offset = None, init_label = None\<rparr>"
    using assms(1) by (auto simp: decode_def Let_def d1 d2 d3 d4 OpCode_defs)
  also have "\<dots> = Inr \<lparr>opcode = opcode i, rA = Some a, rB = Some b, rC = Some c,
     offset = None, label = None\<rparr>"
    using assms by (simp add: ctor_defs)
  finally show ?thesis .
qed

lemma roundtrip_alu:
  assumes "valid_instruction i" "opcode i = ADD \<or> opcode i = SUB \<or> opcode i = NOR \<or> opcode i = MUL"
  shows "decode (encode i) = Inr i"
proof -
  from assms obtain a b c where
    r: "rA i = Some a" "0 \<le> a" "a \<le> 7" "rB i = Some b" "0 \<le> b" "b \<le> 7"
       "rC i = Some c" "0 \<le> c" "c \<le> 7" and n: "offset i = None" "label i = None"
    by (auto simp: valid_instruction_def in_range_def OpCode_defs split: option.splits)
  have "decode (encode i) = Inr \<lparr>opcode = opcode i, rA = Some a, rB = Some b, rC = Some c,
     offset = None, label = None\<rparr>"
    using assms(2) r by (intro decode_encode_reg) (auto simp: js_num_def)
  also have "\<dots> = Inr i" using r n by simp
  finally show ?thesis .
qed

lemma roundtrip_ret:
  assumes "valid_instruction i" "opcode i = RET"
  shows "decode (encode i) = Inr (i\<lparr>rA := Some 0, rB := Some 0, rC := Some 0\<rparr>)"
proof -
  from assms have n: "rA i = None" "rB i = None" "rC i = None" "offset i = None" "label i = None"
    by (auto simp: valid_instruction_def OpCode_defs)
  have "decode (encode i) = Inr \<lparr>opcode = opcode i, rA = Some 0, rB = Some 0, rC = Some 0,
     offset = None, label = None\<rparr>"
    using assms(2) n by (intro decode_encode_reg) (auto simp: js_num_def)
  also have "\<dots> = Inr (i\<lparr>rA := Some 0, rB := Some 0, rC := Some 0\<rparr>)" using n by simp
  finally show ?thesis .
qed

text \<open>
  Claim C1, as the code has it. Decoding the encoding of a valid instruction gives the
  instruction back for the classes LOAD/STORE/BEQ, CALL and ADD/SUB/NOR/MUL. A \<open>RET\<close>
  without operand fields comes back with \<open>rA\<close>, \<open>rB\<close> and \<open>rC\<close> set to 0, since
  \<open>decode\<close> reads the three register fields of every word that is neither a CALL nor a
  LOAD, STORE or BEQ.
\<close>

theorem decode_encode_roundtrip:
  assumes "valid_instruction i"
  shows "decode (encode i) =
    Inr (if opcode i = RET then i\<lparr>rA := Some 0, rB := Some 0, rC := Some 0\<rparr> else i)"
proof -
  consider "opcode i = LOAD \<or> opcode i = STORE \<or> opcode i = BEQ" | "opcode i = CALL"
    | "opcode i = RET" | "opcode i = ADD \<or> opcode i = SUB \<or> opcode i = NOR \<or> opcode i = MUL"
    using assms by (auto simp: valid_instruction_def split: if_splits)
  then show ?thesis
  proof cases
    case 1 then show ?thesis using roundtrip_mem [OF assms] by (auto simp: OpCode_defs)
  next
    case 2 then show ?thesis using roundtrip_call [OF assms] by (auto simp: OpCode_defs)
  next
    case 3 then show ?thesis using roundtrip_ret [OF assms] by simp
  next
    case 4 then show ?thesis using roundtrip_alu [OF assms] by (auto simp: OpCode_defs)
  qed
qed

text \<open>The round trip at \<open>LOAD R1, -3(R7)\<close> and at \<open>RET\<close>.\<close>

theorem decode_encode_roundtrip_witness:
  "valid_instruction LOAD_sample \<and> decode (encode LOAD_sample) = Inr LOAD_sample \<and>
   valid_instruction RET_instruction \<and>
   decode (encode RET_instruction) = Inr (RET_instruction\<lparr>rA := Some 0, rB := Some 0, rC := Some 0\<rparr>)"
proof -
  have v: "valid_instruction LOAD_sample"
    by (simp add: valid_instruction_def LOAD_sample_def in_range_def OpCode_defs)
  have w: "valid_instruction RET_instruction"
    by (simp add: valid_instruction_def RET_instruction_def OpCode_defs)
  have l: "opcode LOAD_sample \<noteq> RET" "opcode RET_instruction = RET"
    by (simp_all add: LOAD_sample_def RET_instruction_def OpCode_defs)
  show ?thesis
    using v w l decode_encode_roundtrip [OF v] decode_encode_roundtrip [OF w] by simp
qed

text \<open>Claim C1 as stated fails at \<open>RET\<close>: the decoded instruction has register fields.\<close>

theorem roundtrip_RET_counterexample:
  "valid_instruction RET_instruction \<and> decode (encode RET_instruction) \<noteq> Inr RET_instruction"
  by (simp add: valid_instruction_def RET_instruction_def OpCode_defs encode_def decode_def
      js_num_def js_and_def js_or_def js_shl_def js_shr_def ctor_defs)

section \<open>A halted engine stays halted; the driver's program\<close>















section \<open>The empty word at issue; validation errors\<close>

text \<open>
  Claim C6. When no jump is pending and the word of \<open>Memory\<close> at \<open>PC\<close> is 0, \<open>Issue\<close>
  returns the state it was given: no station is allocated, and \<open>PC\<close>, the register status
  table and the issued tracker are the same.
\<close>

theorem Issue_zero_word_changes_nothing:
  assumes "\<not> isJumpPending s" and "0 \<le> PC s" and "PC s < Memory_length"
    and "Memory s (PC s) = 0"
  shows "Issue s = s"
  using assms by (simp add: Issue_def Let_def)

text \<open>The driver's engine before its program is loaded: stations are free and the word at
  \<open>PC = 0\<close> is empty.\<close>

theorem Issue_zero_word_changes_nothing_witness:
  "\<not> isJumpPending driver_stations \<and> 0 \<le> PC driver_stations \<and>
   PC driver_stations < Memory_length \<and> Memory driver_stations (PC driver_stations) = 0 \<and>
   find_station ADD (RS driver_stations) 0 = Some 0 \<and>
   Issue driver_stations = driver_stations"
proof -
  have h: "\<not> isJumpPending driver_stations" "0 \<le> PC driver_stations"
    "PC driver_stations < Memory_length" "Memory driver_stations (PC driver_stations) = 0"
    by (simp_all add: driver_stations_def addReservationStation_def Tomasulo_new_def
        Memory_length_def)
  have f: "find_station ADD (RS driver_stations) 0 = Some 0"
    by (simp add: driver_stations_def addReservationStation_def Tomasulo_new_def
        new_ReservationStation_def)
  show ?thesis
    using h f Issue_zero_word_changes_nothing [OF h] by simp
qed

lemma empty_window: "(\<lambda>a::int. if x \<le> a \<and> a < x then f a else g a) = g"
  by (rule ext) auto

text \<open>
  The calls on integers. A setter given a register outside \<open>[0,7]\<close> or a label outside
  \<open>[-64,63]\<close> throws and leaves the instruction as it was, and the constructor given such a
  field throws. \<open>addStartAddress\<close> and \<open>addInstruction\<close> given an address outside
  \<open>[0,65535]\<close> throw and leave the engine as it was. \<open>addData\<close> given such an address
  throws and leaves the engine as it was, except for the empty array at the address 65536,
  which it accepts, changing nothing.
\<close>

lemma validation_on_integers:
  assumes "r < 0 \<or> r > 7" and "l < -64 \<or> l > 63" and "a < 0 \<or> a > 65535"
  shows "setrA i r = Threw InvalidRegister i \<and> setrB i r = Threw InvalidRegister i \<and>
    setrC i r = Threw InvalidRegister i \<and> setLabel i l = Threw LabelRange i \<and>
    isl (Instruction_new (init\<lparr>init_rA := Some r\<rparr>)) \<and>
    isl (Instruction_new (init\<lparr>init_rB := Some r\<rparr>)) \<and>
    isl (Instruction_new (init\<lparr>init_rC := Some r\<rparr>)) \<and>
    isl (Instruction_new (init\<lparr>init_label := Some l\<rparr>)) \<and>
    addStartAddress s a = Threw StartOutOfBounds s \<and>
    addInstruction s instr a = Threw StartOutOfBounds s \<and>
    (if a = 65536 \<and> data = [] then addData s data a = Done s
     else addData s data a = Threw MemoryOutOfBounds s)"
proof -
  have setters: "setrA i r = Threw InvalidRegister i" "setrB i r = Threw InvalidRegister i"
    "setrC i r = Threw InvalidRegister i" "setLabel i l = Threw LabelRange i"
    using assms(1,2) by (auto simp: setrA_def setrB_def setrC_def setLabel_def validateRegister_def)
  have ctor: "isl (Instruction_new (init\<lparr>init_rA := Some r\<rparr>))"
    "isl (Instruction_new (init\<lparr>init_rB := Some r\<rparr>))"
    "isl (Instruction_new (init\<lparr>init_rC := Some r\<rparr>))"
    "isl (Instruction_new (init\<lparr>init_label := Some l\<rparr>))"
    using assms(1,2)
    by (auto simp: Instruction_new_def and_then_def init_field_def setOpcode_def setrA_def
        setrB_def setrC_def setOffset_def setLabel_def validateRegister_def
        split: option.splits effect.splits)
  have eng: "addStartAddress s a = Threw StartOutOfBounds s"
    "addInstruction s instr a = Threw StartOutOfBounds s"
    using assms(3) by (auto simp: addStartAddress_def addInstruction_def Memory_length_def)
  have len: "data \<noteq> [] \<Longrightarrow> 1 \<le> int (length data)"
    by (cases data) simp_all
  have data: "if a = 65536 \<and> data = [] then addData s data a = Done s
     else addData s data a = Threw MemoryOutOfBounds s"
  proof (cases "a = 65536 \<and> data = []")
    case True
    then show ?thesis by (simp add: addData_def Memory_length_def empty_window)
  next
    case False
    then have "a < 0 \<or> a + int (length data) > 65536"
      using assms(3) len by (cases "data = []") fastforce+
    then show ?thesis using False by (auto simp: addData_def Memory_length_def)
  qed
  show ?thesis using setters ctor eng data by simp
qed

text \<open>Register 8, label 64 and the address 65537, on the driver's engine.\<close>

lemma validation_on_integers_instance:
  "((8::int) < 0 \<or> (8::int) > 7) \<and> ((64::int) < -64 \<or> (64::int) > 63) \<and>
   ((65537::int) < 0 \<or> (65537::int) > 65535) \<and>
   setrA LOAD_sample 8 = Threw InvalidRegister LOAD_sample \<and>
   setLabel LOAD_sample 64 = Threw LabelRange LOAD_sample \<and>
   isl (Instruction_new (empty_init\<lparr>init_rA := Some 8\<rparr>)) \<and>
   addStartAddress driver_state 65537 = Threw StartOutOfBounds driver_state \<and>
   addInstruction driver_state LOAD_sample 65537 = Threw StartOutOfBounds driver_state \<and>
   addData driver_state [1, 2] 65537 = Threw MemoryOutOfBounds driver_state"
  using validation_on_integers [of 8 64 65537 LOAD_sample empty_init driver_state LOAD_sample "[1, 2]"]
  by simp

text \<open>The address 65536 is outside \<open>[0,65535]\<close>, and \<open>addData\<close> with an empty array
  returns.\<close>

lemma addData_65536_accepted:
  "\<not> (0 \<le> (65536::int) \<and> (65536::int) \<le> 65535) \<and>
   addData Tomasulo_new [] 65536 = Done Tomasulo_new"
  by (simp add: addData_def Memory_length_def empty_window)

section \<open>Validation on every number\<close>

subsection \<open>Comparison\<close>

lemma powr_split:
  assumes "e0 \<le> e"
  shows "(2::real) powr of_int e = 2 powr of_int e0 * 2 ^ nat (e - e0)"
proof -
  have r: "(of_int e :: real) = of_int e0 + real (nat (e - e0))"
    using assms by simp
  have "(2::real) powr of_int e = 2 powr (of_int e0 + real (nat (e - e0)))"
    by (subst r) (rule refl)
  also have "\<dots> = 2 powr of_int e0 * 2 powr real (nat (e - e0))"
    by (rule powr_add)
  also have "\<dots> = 2 powr of_int e0 * 2 ^ nat (e - e0)"
    by (simp add: powr_realpow)
  finally show ?thesis .
qed

lemma js_lt_value:
  "js_lt (Num m e) (Num m' e') \<longleftrightarrow> value_of m e < value_of m' e'"
proof -
  define e0 where "e0 = min e e'"
  have le: "e0 \<le> e" "e0 \<le> e'"
    by (simp_all add: e0_def)
  have a: "value_of m e = 2 powr of_int e0 * of_int (m * 2 ^ nat (e - e0))"
    unfolding value_of_def powr_split [OF le(1)] by simp
  have b: "value_of m' e' = 2 powr of_int e0 * of_int (m' * 2 ^ nat (e' - e0))"
    unfolding value_of_def powr_split [OF le(2)] by simp
  have pos: "(0::real) < 2 powr of_int e0"
    by simp
  have "value_of m e < value_of m' e' \<longleftrightarrow>
      (of_int (m * 2 ^ nat (e - e0)) :: real) < of_int (m' * 2 ^ nat (e' - e0))"
    unfolding a b using pos by (rule mult_less_cancel_left_pos)
  then show ?thesis
    unfolding e0_def by (simp only: js_lt.simps of_int_less_iff)
qed

lemma value_of_Whole: "value_of k 0 = of_int k"
  by (simp add: value_of_def)

lemma js_lt_below: "js_lt x (Whole c) \<longleftrightarrow> below x (of_int c)"
proof (cases x)
  case (Num m e)
  then show ?thesis
    by (simp only: Whole_def js_lt_value value_of_Whole below_def number.case)
qed (simp_all add: Whole_def below_def)

lemma js_gt_above: "js_gt x (Whole c) \<longleftrightarrow> above x (of_int c)"
proof (cases x)
  case (Num m e)
  then show ?thesis
    by (simp only: Whole_def js_gt_def js_lt_value value_of_Whole above_def number.case)
qed (simp_all add: Whole_def above_def js_gt_def)

lemma js_ge_below: "js_ge x (Whole c) \<longleftrightarrow> x \<noteq> NaN \<and> \<not> below x (of_int c)"
  unfolding js_ge_def js_lt_below by (simp add: Whole_def)

lemma out_of_bounds_iff:
  "js_lt x (Whole 0) \<or> js_ge x (Whole Memory_length) \<longleftrightarrow> out_of_bounds x"
  unfolding js_lt_below js_ge_below
  by (cases x) (auto simp: out_of_bounds_def below_def Memory_length_def)

lemma js_lt_Whole: "js_lt (Whole a) (Whole b) \<longleftrightarrow> a < b"
  by (simp add: Whole_def)

lemma outside_Whole: "outside (Whole k) (of_int lo) (of_int hi) \<longleftrightarrow> k < lo \<or> hi < k"
  by (simp add: outside_def below_def above_def Whole_def value_of_Whole)

lemma out_of_bounds_Whole: "out_of_bounds (Whole k) \<longleftrightarrow> k < 0 \<or> 65536 \<le> k"
  by (simp add: out_of_bounds_def Whole_def value_of_Whole)

subsection \<open>Rounding\<close>

lemma width_unfold: "0 < m \<Longrightarrow> width m = 1 + width (m div 2)"
  by (subst width.simps) simp

lemma width_zero: "m \<le> 0 \<Longrightarrow> width m = 0"
  by (subst width.simps) simp

lemma width_nonneg: "0 \<le> width m"
proof (induction m rule: width.induct)
  case (1 m)
  show ?case
  proof (cases "m \<le> 0")
    case True
    then show ?thesis by (simp only: width_zero)
  next
    case False
    with 1 have "0 \<le> width (m div 2)" by simp
    with False show ?thesis by (simp add: width_unfold)
  qed
qed

lemma width_pos: "0 < m \<Longrightarrow> 0 < width m"
  using width_nonneg [of "m div 2"] by (simp add: width_unfold)

lemma width_one: "width 1 = 1"
  by (simp add: width_unfold [of 1] width_zero)

lemma width_bounds: "0 < m \<Longrightarrow> 2 ^ nat (width m - 1) \<le> m \<and> m < 2 ^ nat (width m)"
proof (induction m rule: width.induct)
  case (1 m)
  show ?case
  proof (cases "m div 2 \<le> 0")
    case True
    with 1(2) have "m = 1" by presburger
    then show ?thesis by (simp add: width_one)
  next
    case False
    then have pos: "0 < m div 2" by simp
    from 1(2) have "\<not> m \<le> 0" by simp
    from 1(1) [OF this pos] have ih: "2 ^ nat (width (m div 2) - 1) \<le> m div 2"
      "m div 2 < 2 ^ nat (width (m div 2))" by simp_all
    have w: "width m = 1 + width (m div 2)" using 1(2) by (rule width_unfold)
    have wp: "0 < width (m div 2)" using pos by (rule width_pos)
    then have n: "nat (width m) = Suc (nat (width (m div 2)))"
      "nat (width m - 1) = Suc (nat (width (m div 2) - 1))"
      using w by linarith+
    have d: "2 * (m div 2) \<le> m" "m < 2 * (m div 2) + 2"
      by presburger+
    show ?thesis unfolding n power_Suc using ih d by linarith
  qed
qed

lemma width_le:
  assumes "m < 2 ^ n"
  shows "width m \<le> int n"
proof (cases "0 < m")
  case True
  from width_bounds [OF True] assms have "(2::int) ^ nat (width m - 1) < 2 ^ n"
    by linarith
  then have "nat (width m - 1) < n"
    by (simp add: power_strict_increasing_iff)
  then show ?thesis by linarith
next
  case False
  then show ?thesis by (simp add: width_zero)
qed

lemma round_double_exact:
  assumes "\<bar>m\<bar> < 2 ^ 53" and "- 1074 \<le> e" and "e \<le> 971"
  shows "round_double m e = Num m e"
proof -
  have "width \<bar>m\<bar> \<le> 53"
    using width_le [OF assms(1)] by simp
  then show ?thesis
    using assms(2,3) by (simp add: round_double_def finite_or_infinite_def Let_def)
qed

lemma round_double_above:
  assumes "0 \<le> m"
  shows "js_gt (round_double m 0) (Whole 65536) \<longleftrightarrow> 65536 < m"
proof (cases "width m \<le> 53")
  case True
  then have "round_double m 0 = Num m 0"
    using assms by (simp add: round_double_def finite_or_infinite_def Let_def)
  then show ?thesis
    by (simp add: js_gt_def Whole_def)
next
  case False
  define k where "k = width m - 53"
  have k: "0 < k" "max (width \<bar>m\<bar> - 53) (- 1074 - 0) = k"
    using False assms by (simp_all add: k_def)
  have pos: "0 < m"
    using False assms width_zero [of m] by (cases "m = 0") auto
  have "nat (width m - 1) = 52 + nat k"
    using False by (simp add: k_def)
  then have low: "2 ^ 52 * 2 ^ nat k \<le> m"
    using width_bounds [OF pos] by (simp add: power_add)
  have one: "(1::int) \<le> 2 ^ nat k"
    by simp
  have low': "4503599627370496 * 2 ^ nat k \<le> m"
    using low by simp
  have big: "65536 < m"
    using low' one by linarith
  define q where "q = m div 2 ^ nat k"
  have q: "2 ^ 52 \<le> q"
  proof -
    have "(2 ^ 52 * 2 ^ nat k) div 2 ^ nat k \<le> m div 2 ^ nat k"
      using low by (rule zdiv_mono1) simp
    then show ?thesis by (simp add: q_def)
  qed
  define q' where "q' = (if m mod 2 ^ nat k > 2 ^ (nat k - 1) \<or>
      (m mod 2 ^ nat k = 2 ^ (nat k - 1) \<and> odd q) then q + 1 else q)"
  have q': "2 ^ 52 \<le> q'"
    using q by (simp add: q'_def)
  have r: "round_double m 0 = finite_or_infinite q' k"
    using k pos by (simp add: round_double_def Let_def q_def q'_def)
  have "js_gt (finite_or_infinite q' k) (Whole 65536)"
  proof (cases "width \<bar>q'\<bar> + k > 1024")
    case True
    then show ?thesis
      using q' by (simp add: finite_or_infinite_def js_gt_def Whole_def)
  next
    case False
    have "0 \<le> q'"
      using q' by simp
    then have "q' * 1 \<le> q' * 2 ^ nat k"
      using one by (rule mult_left_mono [rotated])
    then have "q' \<le> q' * 2 ^ nat k"
      by (simp only: mult_1_right)
    moreover have "4503599627370496 \<le> q'"
      using q' by simp
    ultimately have "65536 < q' * 2 ^ nat k"
      by linarith
    then show ?thesis
      using False k(1) by (simp add: finite_or_infinite_def js_gt_def Whole_def)
  qed
  then show ?thesis
    using big r by simp
qed

lemma js_add_Whole: "js_add (Whole k) (Whole l) = round_double (k + l) 0"
  by (simp add: Whole_def)

subsection \<open>The setters, the constructor and the configuration calls\<close>

lemma validateRegister_n_iff:
  "validateRegister_n r = (if outside r 0 7 then Some InvalidRegister else None)"
  using js_lt_below [of r 0] js_gt_above [of r 7]
  by (simp add: validateRegister_n_def outside_def)

lemma setrA_n_if:
  "setrA_n i r = (if outside r 0 7 then Threw InvalidRegister i else Done (i\<lparr>rA_n := Some r\<rparr>))"
  by (simp add: setrA_n_def validateRegister_n_iff)

lemma setrB_n_if:
  "setrB_n i r = (if outside r 0 7 then Threw InvalidRegister i else Done (i\<lparr>rB_n := Some r\<rparr>))"
  by (simp add: setrB_n_def validateRegister_n_iff)

lemma setrC_n_if:
  "setrC_n i r = (if outside r 0 7 then Threw InvalidRegister i else Done (i\<lparr>rC_n := Some r\<rparr>))"
  by (simp add: setrC_n_def validateRegister_n_iff)

lemma setOffset_n_if:
  "setOffset_n i v =
     (if outside v (- 16) 15 then Threw OffsetRange i else Done (i\<lparr>offset_n := Some v\<rparr>))"
  using js_lt_below [of v "- 16"] js_gt_above [of v 15]
  by (simp add: setOffset_n_def outside_def)

lemma setLabel_n_if:
  "setLabel_n i l =
     (if outside l (- 64) 63 then Threw LabelRange i else Done (i\<lparr>label_n := Some l\<rparr>))"
  using js_lt_below [of l "- 64"] js_gt_above [of l 63]
  by (simp add: setLabel_n_def outside_def)

lemma init_field_n_cases:
  "init_field_n v setter i = (case v of None \<Rightarrow> Done i | Some x \<Rightarrow> setter i x)"
  by (simp add: init_field_n_def)


lemma addStartAddress_n_if:
  "addStartAddress_n s a =
     (if out_of_bounds a then Threw StartOutOfBounds s else Done (s\<lparr>PC_n := a\<rparr>))"
  using out_of_bounds_iff [of a] by (simp add: addStartAddress_n_def)

lemma addInstruction_n_if:
  "addInstruction_n s instr a =
     (if out_of_bounds a then Threw StartOutOfBounds s
      else Done (s\<lparr>Instructions_n := Instructions_n s @ [instr],
                   Memory_n := Memory_put (Memory_n s) a (encode_n instr)\<rparr>))"
  using out_of_bounds_iff [of a] by (simp add: addInstruction_n_def)




lemma addData_n_Whole:
  "addData_n s data (Whole k) =
     (if k < 0 \<or> 65536 < k + int (length data) then Threw MemoryOutOfBounds s
      else Done (s\<lparr>Memory_n := (\<lambda>a. if k \<le> a \<and> a < k + int (length data)
                                     then data ! nat (a - k) else Memory_n s a)\<rparr>))"
proof (cases "k < 0")
  case True
  then show ?thesis
    by (simp add: addData_n_def Whole_def)
next
  case False
  then have "js_gt (js_add (Whole k) (Whole (int (length data)))) (Whole Memory_length) \<longleftrightarrow>
      65536 < k + int (length data)"
    using round_double_above [of "k + int (length data)"]
    by (simp add: js_add_Whole Memory_length_def)
  moreover have "\<not> js_lt (Whole k) (Whole 0)"
    using False by (simp add: Whole_def)
  ultimately show ?thesis
    using False by (auto simp: addData_n_def Memory_set_def Whole_def Memory_length_def)
qed


subsection \<open>On integers the two models agree\<close>

text \<open>The calls of the integer model are the calls of this section on integer arguments
  (for \<open>encode\<close>, on fields that are not astronomically negative).\<close>

lemma setrA_agree:
  "setrA_n (Instruction_n_of i) (Whole r) = map_effect Instruction_n_of (setrA i r)"
  using outside_Whole [of r 0 7]
  by (simp add: setrA_n_if setrA_def validateRegister_def Instruction_n_of_def)

lemma setrB_agree:
  "setrB_n (Instruction_n_of i) (Whole r) = map_effect Instruction_n_of (setrB i r)"
  using outside_Whole [of r 0 7]
  by (simp add: setrB_n_if setrB_def validateRegister_def Instruction_n_of_def)

lemma setrC_agree:
  "setrC_n (Instruction_n_of i) (Whole r) = map_effect Instruction_n_of (setrC i r)"
  using outside_Whole [of r 0 7]
  by (simp add: setrC_n_if setrC_def validateRegister_def Instruction_n_of_def)

lemma setOffset_agree:
  "setOffset_n (Instruction_n_of i) (Whole v) = map_effect Instruction_n_of (setOffset i v)"
  using outside_Whole [of v "- 16" 15]
  by (simp add: setOffset_n_if setOffset_def Instruction_n_of_def)

lemma setLabel_agree:
  "setLabel_n (Instruction_n_of i) (Whole l) = map_effect Instruction_n_of (setLabel i l)"
  using outside_Whole [of l "- 64" 63]
  by (simp add: setLabel_n_if setLabel_def Instruction_n_of_def)

lemma addStartAddress_agree:
  "addStartAddress_n (Tomasulo_n_of s) (Whole a) = map_effect Tomasulo_n_of (addStartAddress s a)"
  by (simp add: addStartAddress_n_if addStartAddress_def out_of_bounds_Whole Tomasulo_n_of_def
      Memory_length_def)

lemma addData_agree:
  "addData_n (Tomasulo_n_of s) data (Whole a) = map_effect Tomasulo_n_of (addData s data a)"
  by (simp add: addData_n_Whole addData_def Tomasulo_n_of_def Memory_length_def cong: if_cong)

lemma shifted:
  assumes "moderate v" and "js_num v < 0" and "0 \<le> c" and "c \<le> 128"
  shows "js_add (nullish (map_option Whole v)) (Whole c) = Whole (js_num v + c)"
proof -
  from assms obtain x where v: "v = Some x" "- (2 ^ 52) \<le> x" "x < 0"
    by (cases v) (auto simp: moderate_def js_num_def)
  have "\<bar>x + c\<bar> < 2 ^ 53"
    using v assms(3,4) by simp
  from round_double_exact [OF this] show ?thesis
    by (simp add: v nullish_def js_num_def Whole_def)
qed

lemma nullish_Whole: "nullish (map_option Whole v) = Whole (js_num v)"
  by (cases v) (simp_all add: nullish_def js_num_def)

lemma ToInt32_Whole: "ToInt32 (Whole k) = k"
  by (simp add: Whole_def)

lemma encode_agree:
  assumes "moderate (offset i)" and "moderate (label i)"
  shows "encode_n (Instruction_n_of i) = encode i"
proof -
  have l: "js_num (label i) < 0 \<Longrightarrow>
      js_add (Whole (js_num (label i))) (Whole 128) = Whole (js_num (label i) + 128)"
    using shifted [OF assms(2), of 128] by (simp add: nullish_Whole)
  have off: "js_num (offset i) < 0 \<Longrightarrow>
      js_add (Whole (js_num (offset i))) (Whole 32) = Whole (js_num (offset i) + 32)"
    using shifted [OF assms(1), of 32] by (simp add: nullish_Whole)
  show ?thesis
    using l off
    by (simp add: encode_n_def encode_def Instruction_n_of_def nullish_Whole ToInt32_Whole
        js_lt_Whole Let_def)
qed

lemma Memory_put_Whole:
  "Memory_put m (Whole k) v = (if 0 \<le> k \<and> k < Memory_length then m(k := word_of_int v) else m)"
  by (simp add: Memory_put_def Whole_def)

lemma addInstruction_agree:
  assumes "moderate (offset i)" and "moderate (label i)"
  shows "addInstruction_n (Tomasulo_n_of s) (Instruction_n_of i) (Whole a) =
     map_effect Tomasulo_n_of (addInstruction s i a)"
  by (simp add: addInstruction_n_if addInstruction_def out_of_bounds_Whole Tomasulo_n_of_def
      Memory_length_def Memory_put_Whole encode_agree [OF assms])

subsection \<open>What is rejected and what is accepted\<close>




section \<open>Two programs on which the engine goes wrong\<close>

lemma outcome_and_then_cases:
  "outcome (and_then r f) = (case r of Threw e s \<Rightarrow> s | Done s \<Rightarrow> outcome (f s))"
  by (simp add: outcome_def and_then_def split: effect.splits)

lemma configured_and_then_instr:
  "configured (outcome r) \<Longrightarrow> configured (outcome (and_then r (\<lambda>s. addInstruction s i a)))"
  by (cases r) (auto simp: outcome_and_then_cases outcome_def [of "Done _"] outcome_def [of "Threw _ _"]
      intro: configured.instr)

lemma configured_and_then_start:
  "configured (outcome r) \<Longrightarrow> configured (outcome (and_then r (\<lambda>s. addStartAddress s a)))"
  by (cases r) (auto simp: outcome_and_then_cases outcome_def [of "Done _"] outcome_def [of "Threw _ _"]
      intro: configured.start)

lemmas configured_intros = configured_and_then_instr configured_and_then_start
  configured.instr configured.station configured.registers configured.memory configured.new

lemma configured_driver_state: "configured driver_state"
  unfolding driver_state_def driver_setup_def driver_stations_def
  by (intro configured_intros)

lemma configured_branch_state: "configured branch_state"
  unfolding branch_state_def branch_setup_def branch_stations_def
  by (intro configured_intros)

lemma configured_hazard_state: "configured hazard_state"
  unfolding hazard_state_def hazard_setup_def hazard_stations_def
  by (intro configured_intros)

lemma reachable_steps: "reachable s \<Longrightarrow> steps n s = Inr s' \<Longrightarrow> reachable s'"
proof (induction n arbitrary: s)
  case 0
  then show ?case by simp
next
  case (Suc n)
  then show ?case by (auto split: sum.splits intro: reachable.cycle)
qed

lemma hazard_run:
  "case steps 5 hazard_state of Inl err \<Rightarrow> False | Inr s5 \<Rightarrow>
     (case steps 7 hazard_state of Inl err \<Rightarrow> False | Inr s7 \<Rightarrow>
        unit (RS s5 ! 1) = STORE \<and> busy (RS s5 ! 1) \<and> Vj (RS s5 ! 1) = Some 100 \<and>
        A (RS s5 ! 1) = Some 0 \<and> getLatestIssueClock s5 1 = Finite 1 \<and>
        unit (RS s5 ! 2) = LOAD \<and> busy (RS s5 ! 2) \<and> A (RS s5 ! 2) = Some 100 \<and>
        getLatestIssueClock s5 2 = Finite 2 \<and> result (RS s5 ! 2) = Some 42 \<and>
        Memory s5 100 = 42 \<and>
        map busy (RS s7) = [False, False, False] \<and> Registers s7 1 = 42 \<and> Memory s7 100 = 10)"
  by code_simp

text \<open>
  Claim C4 fails on the code. In the program \<open>MUL R5,R2,R4; STORE R5,0(R7); LOAD R1,0(R7)\<close>
  the store is issued in cycle 1 and the load in cycle 2, both to the address 100. After five
  cycles the store is still busy, waiting for the product, and its field \<open>A\<close> still holds the
  offset 0; the load has compared its address 100 with that, found no hazard and read the old
  word 42. After seven cycles every station is free, \<open>R1 = 42\<close> and \<open>Memory[100] = 10\<close>.
\<close>

theorem load_reads_before_older_store:
  "\<exists>s5 s7. steps 5 hazard_state = Inr s5 \<and> steps 7 hazard_state = Inr s7 \<and> reachable s5 \<and>
     unit (RS s5 ! 1) = STORE \<and> busy (RS s5 ! 1) \<and> Vj (RS s5 ! 1) = Some 100 \<and>
     A (RS s5 ! 1) = Some 0 \<and> getLatestIssueClock s5 1 = Finite 1 \<and>
     unit (RS s5 ! 2) = LOAD \<and> busy (RS s5 ! 2) \<and> A (RS s5 ! 2) = Some 100 \<and>
     getLatestIssueClock s5 2 = Finite 2 \<and> result (RS s5 ! 2) = Some 42 \<and>
     Memory s5 100 = 42 \<and>
     map busy (RS s7) = [False, False, False] \<and> Registers s7 1 = 42 \<and> Memory s7 100 = 10"
proof -
  from hazard_run obtain s5 s7 where s: "steps 5 hazard_state = Inr s5" "steps 7 hazard_state = Inr s7"
    and r: "unit (RS s5 ! 1) = STORE \<and> busy (RS s5 ! 1) \<and> Vj (RS s5 ! 1) = Some 100 \<and>
     A (RS s5 ! 1) = Some 0 \<and> getLatestIssueClock s5 1 = Finite 1 \<and>
     unit (RS s5 ! 2) = LOAD \<and> busy (RS s5 ! 2) \<and> A (RS s5 ! 2) = Some 100 \<and>
     getLatestIssueClock s5 2 = Finite 2 \<and> result (RS s5 ! 2) = Some 42 \<and>
     Memory s5 100 = 42 \<and>
     map busy (RS s7) = [False, False, False] \<and> Registers s7 1 = 42 \<and> Memory s7 100 = 10"
    by (auto split: sum.splits)
  have "reachable s5"
    using reachable_steps [OF reachable.initial [OF configured_hazard_state] s(1)] .
  then show ?thesis
    using s r by (intro exI [of _ s5] exI [of _ s7]) simp
qed

lemma configured_rename_state: "configured rename_state"
  unfolding rename_state_def by (intro configured_intros configured_branch_state)

lemma rename_run:
  "case steps 3 rename_state of Inl err \<Rightarrow> False | Inr s3 \<Rightarrow>
     (case steps 6 rename_state of Inl err \<Rightarrow> False | Inr s6 \<Rightarrow>
        map name (RS s3) = [''BEQ1'', ''ADD1'', ''ADD2''] \<and>
        map busy (RS s3) = [False, False, False] \<and>
        RegisterStatus s3 3 = Some ''ADD1'' \<and> RegisterStatus s3 4 = Some ''ADD2'' \<and>
        map busy (RS s6) = [False, False, False] \<and>
        Registers s6 3 = 12 \<and> Registers s6 4 = 2 \<and> RegisterStatus s6 4 = Some ''ADD1'')"
  by code_simp

text \<open>
  Claim C10 fails on the code. In the program \<open>BEQ R1,R2,+2; ADD R3,R1,R1; ADD R4,R1,R1\<close>
  with \<open>R1 = R2\<close> the branch is taken in the third cycle and both additions are squashed.
  The state after that cycle is reachable, and in it \<open>RegisterStatus[3]\<close> and
  \<open>RegisterStatus[4]\<close> still name the stations ADD1 and ADD2, which are not busy. The
  instruction \<open>ADD R4,R1,R6\<close> at the branch target then takes ADD1, and its result 12 is
  written to register 3, the first register that names ADD1: after six cycles every station
  is free, \<open>R3 = 12\<close>, \<open>R4\<close> still holds 2 and \<open>RegisterStatus[4]\<close> names ADD1.
\<close>

theorem squash_leaves_rename:
  "\<exists>s3 s6. steps 3 rename_state = Inr s3 \<and> reachable s3 \<and>
     map name (RS s3) = [''BEQ1'', ''ADD1'', ''ADD2''] \<and>
     map busy (RS s3) = [False, False, False] \<and>
     RegisterStatus s3 3 = Some ''ADD1'' \<and> RegisterStatus s3 4 = Some ''ADD2'' \<and>
     steps 6 rename_state = Inr s6 \<and> reachable s6 \<and>
     map busy (RS s6) = [False, False, False] \<and>
     Registers s6 3 = 12 \<and> Registers s6 4 = 2 \<and> RegisterStatus s6 4 = Some ''ADD1''"
proof -
  from rename_run obtain s3 s6 where s: "steps 3 rename_state = Inr s3" "steps 6 rename_state = Inr s6"
    and r: "map name (RS s3) = [''BEQ1'', ''ADD1'', ''ADD2'']"
      "map busy (RS s3) = [False, False, False]"
      "RegisterStatus s3 3 = Some ''ADD1''" "RegisterStatus s3 4 = Some ''ADD2''"
      "map busy (RS s6) = [False, False, False]"
      "Registers s6 3 = 12" "Registers s6 4 = 2" "RegisterStatus s6 4 = Some ''ADD1''"
    by (auto split: sum.splits)
  have "reachable s3" "reachable s6"
    using reachable_steps [OF reachable.initial [OF configured_rename_state]] s by blast+
  then show ?thesis
    using s r by (intro exI [of _ s3] exI [of _ s6]) simp
qed

section \<open>Operand slots hold a value or a tag\<close>

subsection \<open>The shape of the loops\<close>

lemma list_all_update:
  "list_all P xs \<Longrightarrow> (k < length xs \<Longrightarrow> P x) \<Longrightarrow> list_all P (xs[k := x])"
  by (cases "k < length xs") (auto simp: list_all_length nth_list_update)

lemma list_all_nth: "list_all P xs \<Longrightarrow> k < length xs \<Longrightarrow> P (xs ! k)"
  by (simp add: list_all_length)

lemma execute_loop_preserves:
  assumes "\<And>s k s'. P s \<Longrightarrow> execute_station s k = Inr s' \<Longrightarrow> P s'"
    and "P s" and "execute_loop ks s = Inr s'"
  shows "P s'"
  using assms(2,3)
proof (induction ks arbitrary: s)
  case Nil
  then show ?case by simp
next
  case (Cons k ks)
  then show ?case using assms(1) by (auto split: sum.splits)
qed

lemma WriteBack_loop_cases:
  assumes "WriteBack_loop es s = Inr s'"
  shows "s' = s \<or> (\<exists>entry r. entry \<in> set es \<and> result (RS s ! t_RS entry) = Some r \<and>
           producing (unit (RS s ! t_RS entry)) \<and> broadcast s entry r = Inr s')"
  using assms 
proof (induction es)
  case Nil
  then show ?case by simp
next
  case (Cons e es)
  then show ?case by (auto simp: Let_def split: option.splits if_splits)
qed

text \<open>What \<open>Issue\<close> can do: nothing, skip a word, or allocate a station.\<close>

lemma Issue_instr_preserves:
  assumes "P s"
    and "\<And>k. P (Issue_LOAD s instr k)"
    and "\<And>k. P (Issue_STORE s instr k)"
    and "\<And>k. P (Issue_ALU s instr k)"
    and "\<And>k. P (Issue_BEQ s instr k)"
    and "\<And>k. P (Issue_CALL s instr k)"
  shows "P (Issue_instr s instr)"
  unfolding Issue_instr_def using assms by (simp split: option.splits)

lemma Issue_preserves:
  assumes "P s"
    and "P (s\<lparr>PC := PC s + 1\<rparr>)"
    and "\<And>instr k. P (Issue_LOAD s instr k)"
    and "\<And>instr k. P (Issue_STORE s instr k)"
    and "\<And>instr k. P (Issue_ALU s instr k)"
    and "\<And>instr k. P (Issue_BEQ s instr k)"
    and "\<And>instr k. P (Issue_CALL s instr k)"
  shows "P (Issue s)"
  unfolding Issue_def using assms
  by (simp add: Let_def Issue_instr_preserves split: sum.splits)

subsection \<open>Operand slots\<close>

lemma exclusive_capture: "capture s r = (v, q) \<Longrightarrow> v \<noteq> None \<longrightarrow> q = None"
  by (auto simp: capture_def split: option.splits)

lemma exclusive_advance: "exclusive (advance r) = exclusive r"
  by (simp add: advance_def exclusive_def)

lemma exclusive_release: "exclusive (release r)"
  by (simp add: release_def exclusive_def)

lemma exclusive_squash: "exclusive (squash r)"
  by (simp add: squash_def exclusive_def)

lemma exclusive_wakeup: "exclusive r \<Longrightarrow> exclusive (wakeup n v r)"
  by (auto simp: wakeup_def exclusive_def Let_def)

lemma operands_incrementCyclesPassed:
  "operands_exclusive s \<Longrightarrow> operands_exclusive (incrementCyclesPassed s)"
  by (simp add: operands_exclusive_def incrementCyclesPassed_def list_all_iff exclusive_advance)

lemma operands_update:
  assumes "operands_exclusive s" and "k < length (RS s) \<Longrightarrow> exclusive e"
    and "RS s' = (RS s)[k := e]"
  shows "operands_exclusive s'"
  using assms by (simp add: operands_exclusive_def list_all_update)

lemma exclusive_station: "operands_exclusive s \<Longrightarrow> k < length (RS s) \<Longrightarrow> exclusive (RS s ! k)"
  by (simp add: operands_exclusive_def list_all_nth)

lemma operands_Issue_LOAD:
  assumes "operands_exclusive s"
  shows "operands_exclusive (Issue_LOAD s instr k)"
proof -
  obtain vj qj where c: "capture s (the (rB instr)) = (vj, qj)" by fastforce
  note x = exclusive_capture [OF c] exclusive_station [OF assms]
  show ?thesis
    by (cases "clone instr"; rule operands_update [OF assms, where k = k])
      (use x in \<open>simp_all add: Issue_LOAD_def Let_def c exclusive_def\<close>)
qed

lemma operands_Issue_STORE:
  assumes "operands_exclusive s"
  shows "operands_exclusive (Issue_STORE s instr k)"
proof -
  obtain vj qj where c: "capture s (the (rB instr)) = (vj, qj)" by fastforce
  obtain vk qk where d: "capture s (the (rA instr)) = (vk, qk)" by fastforce
  note x = exclusive_capture [OF c] exclusive_capture [OF d]
  show ?thesis
    by (cases "clone instr"; rule operands_update [OF assms, where k = k])
      (use x in \<open>simp_all add: Issue_STORE_def Let_def c d exclusive_def\<close>)
qed

lemma operands_Issue_ALU:
  assumes "operands_exclusive s"
  shows "operands_exclusive (Issue_ALU s instr k)"
proof -
  obtain vj qj where c: "capture s (the (rB instr)) = (vj, qj)" by fastforce
  obtain vk qk where d: "capture s (the (rC instr)) = (vk, qk)" by fastforce
  note x = exclusive_capture [OF c] exclusive_capture [OF d]
  show ?thesis
    by (cases "clone instr"; rule operands_update [OF assms, where k = k])
      (use x in \<open>simp_all add: Issue_ALU_def Let_def c d exclusive_def\<close>)
qed

lemma operands_Issue_BEQ:
  assumes "operands_exclusive s"
  shows "operands_exclusive (Issue_BEQ s instr k)"
proof -
  obtain vj qj where c: "capture s (the (rA instr)) = (vj, qj)" by fastforce
  obtain vk qk where d: "capture s (the (rB instr)) = (vk, qk)" by fastforce
  note x = exclusive_capture [OF c] exclusive_capture [OF d]
  show ?thesis
    by (cases "clone instr"; rule operands_update [OF assms, where k = k])
      (use x in \<open>simp_all add: Issue_BEQ_def Let_def c d exclusive_def\<close>)
qed

lemma operands_Issue_CALL:
  assumes "operands_exclusive s"
  shows "operands_exclusive (Issue_CALL s instr k)"
proof -
  note x = exclusive_station [OF assms]
  show ?thesis
    by (cases "clone instr"; rule operands_update [OF assms, where k = k])
      (use x in \<open>simp_all add: Issue_CALL_def Let_def exclusive_def\<close>)
qed

lemma operands_Issue: "operands_exclusive s \<Longrightarrow> operands_exclusive (Issue s)"
  by (rule Issue_preserves)
    (simp_all add: operands_Issue_LOAD operands_Issue_STORE operands_Issue_ALU operands_Issue_BEQ
      operands_Issue_CALL, simp add: operands_exclusive_def)

lemma exclusive_updates:
  "exclusive (e\<lparr>A := a\<rparr>) = exclusive e"
  "exclusive (e\<lparr>cycles_passed := c\<rparr>) = exclusive e"
  "exclusive (e\<lparr>result := r\<rparr>) = exclusive e"
  by (simp_all add: exclusive_def)

lemmas operands_simps = operands_exclusive_def list_all_nth exclusive_updates exclusive_release

lemma operands_address_phase: "operands_exclusive s \<Longrightarrow> operands_exclusive (address_phase s k)"
  by (auto simp: address_phase_def Let_def operands_simps intro!: list_all_update)

lemma operands_stall: "operands_exclusive s \<Longrightarrow> operands_exclusive (stall s k)"
  by (auto simp: stall_def operands_simps intro!: list_all_update)

lemma operands_retire:
  "operands_exclusive s \<Longrightarrow> retire s k = Inr s' \<Longrightarrow> operands_exclusive s'"
  by (auto simp: retire_def Let_def operands_simps split: sum.splits intro!: list_all_update)

lemma operands_finish:
  "operands_exclusive s \<Longrightarrow> finish s k r = Inr s' \<Longrightarrow> operands_exclusive s'"
  by (auto simp: finish_def Let_def operands_simps split: sum.splits intro!: list_all_update)

lemma operands_resolve_BEQ: "operands_exclusive s \<Longrightarrow> operands_exclusive (resolve_BEQ s k)"
  by (auto simp: resolve_BEQ_def Let_def operands_exclusive_def list_all_iff exclusive_squash)

lemma operands_frame:
  "operands_exclusive s \<Longrightarrow> RS s' = RS s \<Longrightarrow> operands_exclusive s'"
  by (simp add: operands_exclusive_def)

lemma operands_execute_LOAD:
  assumes "operands_exclusive s" "execute_LOAD s k = Inr s'"
  shows "operands_exclusive s'"
proof -
  note a = operands_address_phase [OF assms(1), of k]
  show ?thesis
    using assms(2) a operands_stall [OF a, of k]
    by (auto simp: execute_LOAD_def Let_def operands_simps split: if_splits sum.splits
        intro!: list_all_update)
qed

lemma operands_execute_STORE:
  assumes "operands_exclusive s" "execute_STORE s k = Inr s'"
  shows "operands_exclusive s'"
proof -
  note a = operands_address_phase [OF assms(1), of k]
  show ?thesis
    using assms(2) a operands_stall [OF a, of k]
    by (auto simp: execute_STORE_def Let_def operands_simps split: if_splits sum.splits
        intro!: list_all_update)
qed

lemma operands_execute_BEQ:
  "operands_exclusive s \<Longrightarrow> execute_BEQ s k = Inr s' \<Longrightarrow> operands_exclusive s'"
  using operands_retire [OF operands_resolve_BEQ, of s k k s']
  by (auto simp: execute_BEQ_def Let_def split: if_splits)

lemma RS_resolve_CALL: "RS (resolve_CALL s k) = RS s"
  by (simp add: resolve_CALL_def Let_def)

lemma operands_execute_CALL:
  assumes "operands_exclusive s" "execute_CALL s k = Inr s'"
  shows "operands_exclusive s'"
proof -
  have "operands_exclusive (resolve_CALL s k)"
    using assms(1) by (rule operands_frame) (rule RS_resolve_CALL)
  then show ?thesis
    using assms by (auto simp: execute_CALL_def Let_def split: if_splits dest: operands_retire)
qed

lemma operands_execute_station:
  "operands_exclusive s \<Longrightarrow> execute_station s k = Inr s' \<Longrightarrow> operands_exclusive s'"
  unfolding execute_station_def Let_def
  by (auto simp: execute_ADD_def execute_NOR_def execute_MUL_def Let_def split: if_splits
      dest: operands_execute_LOAD operands_execute_STORE operands_execute_BEQ
        operands_execute_CALL operands_finish)

lemma operands_execute:
  "operands_exclusive s \<Longrightarrow> execute s = Inr s' \<Longrightarrow> operands_exclusive s'"
  unfolding execute_def
  by (rule execute_loop_preserves [where P = operands_exclusive]) (auto dest: operands_execute_station)

lemma RS_broadcast:
  assumes "broadcast s entry r = Inr s'"
  shows "RS s' = (map (wakeup (name (RS s ! t_RS entry)) r) (RS s))
           [t_RS entry := release (map (wakeup (name (RS s ! t_RS entry)) r) (RS s) ! t_RS entry)]"
  using assms by (auto simp: broadcast_def Let_def split: sum.splits option.splits)

lemma operands_broadcast:
  assumes "operands_exclusive s" "broadcast s entry r = Inr s'"
  shows "operands_exclusive s'"
proof -
  have "list_all exclusive (map (wakeup (name (RS s ! t_RS entry)) r) (RS s))"
    using assms(1) by (simp add: operands_exclusive_def list_all_iff exclusive_wakeup)
  then show ?thesis
    unfolding operands_exclusive_def RS_broadcast [OF assms(2)]
    by (rule list_all_update) (rule exclusive_release)
qed

lemma operands_WriteBack:
  "operands_exclusive s \<Longrightarrow> WriteBack s = Inr s' \<Longrightarrow> operands_exclusive s'"
  unfolding WriteBack_def
  by (drule WriteBack_loop_cases) (auto dest: operands_broadcast)

lemma operands_step:
  assumes "operands_exclusive s" "step s = Inr s'"
  shows "operands_exclusive s'"
proof -
  from assms(2) obtain s3 s4 where e: "execute (Issue (incrementCyclesPassed s)) = Inr s3"
    and w: "WriteBack s3 = Inr s4" and s': "s' = s4\<lparr>clock := clock s4 + 1\<rparr>"
    by (auto simp: step_def split: sum.splits)
  have "operands_exclusive s4"
    using operands_WriteBack [OF operands_execute [OF operands_Issue
          [OF operands_incrementCyclesPassed [OF assms(1)]] e] w] .
  then show ?thesis by (simp add: s' operands_exclusive_def)
qed

lemma operands_outcome:
  "operands_exclusive s \<Longrightarrow> RS (outcome r) = RS s \<Longrightarrow> operands_exclusive (outcome r)"
  by (simp add: operands_exclusive_def)

lemma RS_addInstruction: "RS (outcome (addInstruction s i a)) = RS s"
  by (simp add: addInstruction_def outcome_def)

lemma RS_addInstructions_from: "RS (outcome (addInstructions_from s is a n)) = RS s"
proof (induction "is" arbitrary: s n)
  case Nil
  then show ?case by (simp add: outcome_def)
next
  case (Cons i "is")
  show ?case
  proof (cases "addInstruction s i (a + n)")
    case (Threw e t)
    then have "t = s" by (simp add: addInstruction_def split: if_splits)
    then show ?thesis using Threw by (simp add: and_then_def outcome_def)
  next
    case (Done t)
    then have "RS t = RS s" using RS_addInstruction [of s i "a + n"] by (simp add: outcome_def)
    then show ?thesis using Done Cons.IH [of t "n + 1"] by (simp add: and_then_def outcome_def)
  qed
qed

lemma RS_addData: "RS (outcome (addData s d a)) = RS s"
  by (simp add: addData_def outcome_def)

lemma RS_addStartAddress: "RS (outcome (addStartAddress s a)) = RS s"
  by (simp add: addStartAddress_def outcome_def)

lemma operands_configured: "configured s \<Longrightarrow> operands_exclusive s"
proof (induction rule: configured.induct)
  case new
  then show ?case by (simp add: operands_exclusive_def Tomasulo_new_def)
next
  case (station s n u cn ca cm)
  then show ?case
    by (simp add: operands_exclusive_def addReservationStation_def new_ReservationStation_def
        exclusive_def)
next
  case (instrs s "is" a)
  then show ?case
    unfolding addInstructions_def by (intro operands_outcome [OF _ RS_addInstructions_from])
qed (simp_all add: operands_exclusive_def RS_addInstruction RS_addData RS_addStartAddress)

text \<open>
  Claim C9. In every reachable state each operand slot of each station holds a value or a
  tag and never both: \<open>Vj \<noteq> null\<close> implies \<open>Qj = null\<close>, and the same for \<open>Vk\<close> and
  \<open>Qk\<close>. The lemmas above show it kept by every phase of a cycle: the operand capture of
  \<open>Issue\<close>, the releases and the squash of \<open>execute\<close>, the wake-up and the release of
  \<open>WriteBack\<close>.
\<close>

theorem reachable_operands_exclusive: "reachable s \<Longrightarrow> operands_exclusive s"
proof (induction rule: reachable.induct)
  case (initial s)
  then show ?case by (rule operands_configured)
next
  case (cycle s s')
  then show ?case by (auto intro: operands_step)
qed

lemma driver_4: "returns (steps 4 driver_state)"
  by code_simp

text \<open>The driver's engine after four cycles: ADD1 and ADD2 hold values, MUL1 holds two
  tags.\<close>

theorem reachable_operands_exclusive_witness:
  "reachable (state_of (steps 4 driver_state)) \<and>
   operands_exclusive (state_of (steps 4 driver_state)) \<and>
   Qj (RS (state_of (steps 4 driver_state)) ! 2) = Some ''ADD1''"
proof -
  have "steps 4 driver_state = Inr (state_of (steps 4 driver_state))"
    using driver_4 by (simp add: returns_def state_of_def split: sum.splits)
  then have r: "reachable (state_of (steps 4 driver_state))"
    using reachable_steps [OF reachable.initial [OF configured_driver_state]] by blast
  have q: "Qj (RS (state_of (steps 4 driver_state)) ! 2) = Some ''ADD1''"
    by code_simp
  show ?thesis
    using r q reachable_operands_exclusive [OF r] by simp
qed

section \<open>Register 0\<close>

lemma Registers_Issue: "Registers (Issue s) = Registers s"
  by (rule Issue_preserves)
    (simp_all add: Issue_LOAD_def Issue_STORE_def Issue_ALU_def Issue_BEQ_def Issue_CALL_def
      Let_def split: prod.splits sum.splits)

lemma rename_zero: "RegisterStatus s 0 = None \<Longrightarrow> rename s r n 0 = None"
  by (simp add: rename_def)

lemma RegisterStatus_Issue: "RegisterStatus s 0 = None \<Longrightarrow> RegisterStatus (Issue s) 0 = None"
  by (rule Issue_preserves)
    (simp_all add: Issue_LOAD_def Issue_STORE_def Issue_ALU_def Issue_BEQ_def Issue_CALL_def
      Let_def rename_zero split: prod.splits sum.splits)

text \<open>\<open>execute\<close> writes no register but the link register, and never the register status.\<close>

lemma zero_retire:
  "retire s k = Inr s' \<Longrightarrow> Registers s' = Registers s \<and> RegisterStatus s' = RegisterStatus s"
  by (auto simp: retire_def Let_def split: sum.splits)

lemma zero_finish:
  "finish s k r = Inr s' \<Longrightarrow> Registers s' = Registers s \<and> RegisterStatus s' = RegisterStatus s"
  by (auto simp: finish_def Let_def split: sum.splits)

lemma zero_address_phase:
  "Registers (address_phase s k) = Registers s \<and>
   RegisterStatus (address_phase s k) = RegisterStatus s"
  by (simp add: address_phase_def Let_def)

lemma zero_execute_LOAD:
  "execute_LOAD s k = Inr s' \<Longrightarrow> Registers s' = Registers s \<and> RegisterStatus s' = RegisterStatus s"
  using zero_address_phase [of s k]
  by (auto simp: execute_LOAD_def Let_def stall_def split: if_splits sum.splits)

lemma zero_execute_STORE:
  "execute_STORE s k = Inr s' \<Longrightarrow> Registers s' = Registers s \<and> RegisterStatus s' = RegisterStatus s"
  using zero_address_phase [of s k]
  by (auto simp: execute_STORE_def Let_def stall_def split: if_splits sum.splits)

lemma zero_resolve_BEQ:
  "Registers (resolve_BEQ s k) = Registers s \<and> RegisterStatus (resolve_BEQ s k) = RegisterStatus s"
  by (simp add: resolve_BEQ_def Let_def)

lemma zero_execute_BEQ:
  "execute_BEQ s k = Inr s' \<Longrightarrow> Registers s' = Registers s \<and> RegisterStatus s' = RegisterStatus s"
  using zero_resolve_BEQ [of s k]
  by (auto simp: execute_BEQ_def Let_def split: if_splits dest!: zero_retire)

lemma zero_resolve_CALL:
  "Registers (resolve_CALL s k) 0 = Registers s 0 \<and>
   RegisterStatus (resolve_CALL s k) = RegisterStatus s"
  by (simp add: resolve_CALL_def Let_def)

lemma zero_execute_CALL:
  "execute_CALL s k = Inr s' \<Longrightarrow>
   Registers s' 0 = Registers s 0 \<and> RegisterStatus s' = RegisterStatus s"
  using zero_resolve_CALL [of s k]
  by (auto simp: execute_CALL_def Let_def split: if_splits dest!: zero_retire)

lemma zero_execute_station:
  "execute_station s k = Inr s' \<Longrightarrow>
   Registers s' 0 = Registers s 0 \<and> RegisterStatus s' = RegisterStatus s"
  unfolding execute_station_def Let_def
  by (auto simp: execute_ADD_def execute_NOR_def execute_MUL_def Let_def split: if_splits
      dest!: zero_execute_LOAD zero_execute_STORE zero_execute_BEQ zero_execute_CALL zero_finish)

lemma zero_execute:
  assumes "execute s = Inr s'"
  shows "Registers s' 0 = Registers s 0 \<and> RegisterStatus s' = RegisterStatus s"
  using assms unfolding execute_def
  by (rule execute_loop_preserves
      [where P = "\<lambda>t. Registers t 0 = Registers s 0 \<and> RegisterStatus t = RegisterStatus s", rotated 2])
    (auto dest: zero_execute_station)

text \<open>The broadcast writes 0 when the register it found is register 0.\<close>

lemma zero_broadcast:
  assumes "broadcast s entry r = Inr s'"
  shows "(Registers s 0 = 0 \<longrightarrow> Registers s' 0 = 0) \<and>
         (RegisterStatus s 0 = None \<longrightarrow> RegisterStatus s' 0 = None)"
  using assms by (auto simp: broadcast_def Let_def split: sum.splits option.splits)

lemma zero_WriteBack:
  assumes "WriteBack s = Inr s'"
  shows "(Registers s 0 = 0 \<longrightarrow> Registers s' 0 = 0) \<and>
         (RegisterStatus s 0 = None \<longrightarrow> RegisterStatus s' 0 = None)"
  using WriteBack_loop_cases [OF assms [unfolded WriteBack_def]] zero_broadcast by blast

lemma zero_step:
  assumes "step s = Inr s'"
  shows "(Registers s 0 = 0 \<longrightarrow> Registers s' 0 = 0) \<and>
         (RegisterStatus s 0 = None \<longrightarrow> RegisterStatus s' 0 = None)"
proof -
  from assms obtain s3 s4 where e: "execute (Issue (incrementCyclesPassed s)) = Inr s3"
    and w: "WriteBack s3 = Inr s4" and s': "s' = s4\<lparr>clock := clock s4 + 1\<rparr>"
    by (auto simp: step_def split: sum.splits)
  have i: "Registers (Issue (incrementCyclesPassed s)) = Registers s"
    by (simp add: Registers_Issue incrementCyclesPassed_def)
  have j: "RegisterStatus s 0 = None \<Longrightarrow> RegisterStatus (Issue (incrementCyclesPassed s)) 0 = None"
    by (rule RegisterStatus_Issue) (simp add: incrementCyclesPassed_def)
  show ?thesis
    using zero_execute [OF e] zero_WriteBack [OF w] i j by (simp add: s')
qed

lemma zero_steps:
  assumes "steps n s = Inr s'"
  shows "(Registers s 0 = 0 \<longrightarrow> Registers s' 0 = 0) \<and>
         (RegisterStatus s 0 = None \<longrightarrow> RegisterStatus s' 0 = None)"
  using assms
proof (induction n arbitrary: s)
  case 0
  then show ?case by simp
next
  case (Suc n)
  then obtain t where t: "step s = Inr t" "steps n t = Inr s'"
    by (auto split: sum.splits)
  show ?case using zero_step [OF t(1)] Suc.IH [OF t(2)] by simp
qed

lemma RegisterStatus_configured: "configured s \<Longrightarrow> RegisterStatus s = (\<lambda>_. None)"
proof (induction rule: configured.induct)
  case new
  then show ?case by (simp add: Tomasulo_new_def)
next
  case (instrs s "is" a)
  have "RegisterStatus (outcome (addInstructions_from t is a n)) = RegisterStatus t" for t n
  proof (induction "is" arbitrary: t n)
    case Nil
    then show ?case by (simp add: outcome_def)
  next
    case (Cons i "is")
    show ?case
      using Cons.IH [of _ "n + 1"]
      by (auto simp: outcome_def and_then_def addInstruction_def split: effect.splits if_splits)
  qed
  then show ?case using instrs by (simp add: addInstructions_def)
qed (simp_all add: addReservationStation_def addInstruction_def addData_def addStartAddress_def
    outcome_def)

section \<open>One broadcast in a cycle\<close>

lemma filter_none:
  "k \<notin> set xs \<Longrightarrow> (\<And>x. x \<in> set xs \<Longrightarrow> P x \<Longrightarrow> x = k) \<Longrightarrow> filter P xs = []"
  by (induction xs) auto

lemma filter_at_most_one:
  assumes "distinct xs" and "\<And>x. x \<in> set xs \<Longrightarrow> P x \<Longrightarrow> x = k"
  shows "length (filter P xs) \<le> 1"
  using assms
proof (induction xs)
  case Nil
  then show ?case by simp
next
  case (Cons x xs)
  have rest: "\<And>y. y \<in> set xs \<Longrightarrow> P y \<Longrightarrow> y = k"
    using Cons.prems(2) by simp
  have d: "distinct xs" "x \<notin> set xs" using Cons.prems(1) by simp_all
  show ?case
  proof (cases "P x")
    case True
    then have "x = k" using Cons.prems(2) by simp
    then have "filter P xs = []"
      using d(2) rest by (intro filter_none [where k = k]) auto
    then show ?thesis using True by simp
  next
    case False
    then show ?thesis using Cons.IH [OF d(1) rest] by simp
  qed
qed

lemma busy_wakeup: "busy (wakeup n v r) = busy r"
  by (simp add: wakeup_def Let_def)

lemma broadcast_tracker:
  "broadcast s entry r = Inr s' \<Longrightarrow>
   length (WriteBackTracker s') = Suc (length (WriteBackTracker s))"
  by (auto simp: broadcast_def Let_def split: sum.splits option.splits)

lemma broadcast_released:
  assumes "broadcast s entry r = Inr s'"
  shows "length (released s s') \<le> 1 \<and> set (released s s') \<subseteq> {t_RS entry}"
proof -
  have "j = t_RS entry" if "j < length (RS s)" "busy (RS s ! j)" "\<not> busy (RS s' ! j)" for j
    using that by (cases "j = t_RS entry") (simp_all add: RS_broadcast [OF assms] busy_wakeup)
  then have "length (released s s') \<le> 1"
    unfolding released_def by (intro filter_at_most_one [where k = "t_RS entry"]) auto
  moreover have "set (released s s') \<subseteq> {t_RS entry}"
    using \<open>\<And>j. \<lbrakk>j < length (RS s); busy (RS s ! j); \<not> busy (RS s' ! j)\<rbrakk> \<Longrightarrow> j = t_RS entry\<close>
    unfolding released_def by auto
  ultimately show ?thesis by simp
qed

lemma broadcast_written:
  assumes "broadcast s entry r = Inr s'"
  shows "length (written s s') \<le> 1"
proof (cases "find (\<lambda>i. RegisterStatus s i = Some (name (RS s ! t_RS entry))) [0..7]")
  case None
  then have "Registers s' = Registers s"
    using assms by (auto simp: broadcast_def Let_def split: sum.splits)
  then show ?thesis by (simp add: written_def)
next
  case (Some i)
  then have "Registers s' j = Registers s j" if "j \<noteq> i" for j
    using assms that by (auto simp: broadcast_def Let_def split: sum.splits)
  then show ?thesis
    unfolding written_def by (intro filter_at_most_one [where k = i]) auto
qed

lemma WriteBack_one_broadcast:
  assumes "WriteBack s = Inr s'"
  shows "length (WriteBackTracker s) \<le> length (WriteBackTracker s') \<and>
    broadcasts s s' \<le> 1 \<and>
    length (released s s') \<le> broadcasts s s' \<and>
    length (written s s') \<le> broadcasts s s' \<and>
    list_all (\<lambda>k. producing (unit (RS s ! k))) (released s s') \<and>
    (broadcasts s s' = 0 \<longrightarrow> s' = s)"
proof -
  consider "s' = s"
    | entry r where "entry \<in> set (IssuedTracker s)" "producing (unit (RS s ! t_RS entry))"
        "broadcast s entry r = Inr s'"
    using WriteBack_loop_cases [OF assms [unfolded WriteBack_def]] by blast
  then show ?thesis
  proof cases
    case 1
    then show ?thesis by (simp add: broadcasts_def released_def written_def)
  next
    case 2
    have b: "broadcasts s s' = 1"
      using broadcast_tracker [OF 2(3)] by (simp add: broadcasts_def)
    have "list_all (\<lambda>k. producing (unit (RS s ! k))) (released s s')"
      using broadcast_released [OF 2(3)] 2(2) by (auto simp: list_all_iff)
    then show ?thesis
      using b broadcast_tracker [OF 2(3)] broadcast_released [OF 2(3)] broadcast_written [OF 2(3)]
      by simp
  qed
qed

text \<open>
  Claim C3. In every cycle, from any state, the write-back phase performs no broadcast or
  one: it appends at most one entry to the write-back tracker, frees at most one station, of
  a producing unit (LOAD, ADD with SUB, NOR or MUL), and writes at most one register; when
  it performs none it changes nothing.
\<close>

theorem one_broadcast_per_step:
  assumes "step s = Inr s'"
  shows "broadcasts (before_WriteBack s) s' \<le> 1 \<and>
    length (released (before_WriteBack s) s') \<le> broadcasts (before_WriteBack s) s' \<and>
    length (written (before_WriteBack s) s') \<le> broadcasts (before_WriteBack s) s' \<and>
    list_all (\<lambda>k. producing (unit (RS (before_WriteBack s) ! k)))
      (released (before_WriteBack s) s') \<and>
    (broadcasts (before_WriteBack s) s' = 0 \<longrightarrow>
       s' = (before_WriteBack s)\<lparr>clock := clock (before_WriteBack s) + 1\<rparr>)"
proof -
  from assms obtain s3 s4 where e: "execute (Issue (incrementCyclesPassed s)) = Inr s3"
    and w: "WriteBack s3 = Inr s4" and s': "s' = s4\<lparr>clock := clock s4 + 1\<rparr>"
    by (auto simp: step_def split: sum.splits)
  have s3: "before_WriteBack s = s3"
    by (simp add: before_WriteBack_def e state_of_def)
  have same: "broadcasts s3 s' = broadcasts s3 s4" "released s3 s' = released s3 s4"
    "written s3 s' = written s3 s4"
    by (simp_all add: s' broadcasts_def released_def written_def)
  show ?thesis
    unfolding s3 same using WriteBack_one_broadcast [OF w] by (auto simp: s')
qed

lemma driver_cycle_4:
  "returns (step (state_of (steps 3 driver_state))) \<and>
   broadcasts (before_WriteBack (state_of (steps 3 driver_state)))
     (state_of (step (state_of (steps 3 driver_state)))) = 1 \<and>
   released (before_WriteBack (state_of (steps 3 driver_state)))
     (state_of (step (state_of (steps 3 driver_state)))) = [3] \<and>
   written (before_WriteBack (state_of (steps 3 driver_state)))
     (state_of (step (state_of (steps 3 driver_state)))) = [1]"
  by code_simp

text \<open>The fourth cycle of the driver's program: LOAD1, the station 3, broadcasts and
  register 1 is written.\<close>

theorem one_broadcast_per_step_witness:
  "step (state_of (steps 3 driver_state)) = Inr (state_of (step (state_of (steps 3 driver_state)))) \<and>
   broadcasts (before_WriteBack (state_of (steps 3 driver_state)))
     (state_of (step (state_of (steps 3 driver_state)))) = 1 \<and>
   released (before_WriteBack (state_of (steps 3 driver_state)))
     (state_of (step (state_of (steps 3 driver_state)))) = [3] \<and>
   written (before_WriteBack (state_of (steps 3 driver_state)))
     (state_of (step (state_of (steps 3 driver_state)))) = [1] \<and>
   producing (unit (RS (before_WriteBack (state_of (steps 3 driver_state))) ! 3))"
proof -
  have r: "step (state_of (steps 3 driver_state)) =
      Inr (state_of (step (state_of (steps 3 driver_state))))"
    using driver_cycle_4 by (simp add: returns_def state_of_def split: sum.splits)
  show ?thesis
    using one_broadcast_per_step [OF r] r driver_cycle_4 by simp
qed

section \<open>A taken branch\<close>

lemma splice_tail:
  "0 \<le> n \<Longrightarrow> n \<le> int (length xs) \<Longrightarrow> splice xs (int (length xs) - n) = take (length xs - nat n) xs"
  by (simp add: splice_def Let_def nat_diff_distrib')

lemma retire_shape:
  assumes "instruction (RS s ! k) = Some i" "clone i = Inr c"
  shows "\<exists>s'. retire s k = Inr s' \<and> PC s' = PC s \<and> isBranchPending s' = isBranchPending s \<and>
     branchMispredictions s' = branchMispredictions s \<and> IssuedTracker s' = IssuedTracker s \<and>
     IssuedAfterBranch s' = IssuedAfterBranch s \<and> Registers s' = Registers s \<and>
     RS s' = (RS s)[k := release (RS s ! k)]"
  using assms by (simp add: retire_def Let_def clone_of_def)

lemma resolve_taken:
  assumes "Vj (RS s ! k) = Vk (RS s ! k)"
  shows "PC (resolve_BEQ s k) = js_num (A (RS s ! k)) + js_num (PC_Original (RS s ! k)) + 1"
    "\<not> isBranchPending (resolve_BEQ s k)"
    "branchMispredictions (resolve_BEQ s k) = branchMispredictions s + 1"
    "IssuedTracker (resolve_BEQ s k) =
       splice (IssuedTracker s) (int (length (IssuedTracker s)) - IssuedAfterBranch s)"
    "IssuedAfterBranch (resolve_BEQ s k) = 0"
    "Registers (resolve_BEQ s k) = Registers s"
    "RS (resolve_BEQ s k) =
       map (\<lambda>rs. if js_num (PC_Original rs) > js_num (PC_Original (RS s ! k)) then squash rs else rs) (RS s)"
  using assms by (simp_all add: resolve_BEQ_def Let_def)

text \<open>
  The BEQ block of \<open>execute\<close> on a busy BEQ station whose cycles have passed and whose
  operands are equal: it sets \<open>PC\<close> to \<open>A + PC_Original + 1\<close>, clears \<open>isBranchPending\<close>,
  counts a misprediction, drops the last \<open>IssuedAfterBranch\<close> entries of the issued tracker
  and resets that counter, squashes the stations whose \<open>PC_Original\<close> is greater than its
  own (their \<open>busy\<close>, \<open>result\<close>, \<open>instruction\<close> and operand fields are cleared), leaves
  every other station as it was and is freed itself. The block itself writes no register.
\<close>

lemma BEQ_block_taken:
  assumes "k < length (RS s)" and "unit (RS s ! k) = BEQ" and "busy (RS s ! k)"
    and "cycles_passed (RS s ! k) = cycles_needed (RS s ! k)"
    and "Vj (RS s ! k) = Vk (RS s ! k)"
    and "A (RS s ! k) = Some a" and "PC_Original (RS s ! k) = Some p"
    and "instruction (RS s ! k) = Some i" and "clone i = Inr c"
    and "tracker_count s"
  shows "\<exists>s'. execute_station s k = Inr s' \<and>
     PC s' = a + p + 1 \<and> \<not> isBranchPending s' \<and>
     branchMispredictions s' = branchMispredictions s + 1 \<and>
     IssuedTracker s' =
       take (length (IssuedTracker s) - nat (IssuedAfterBranch s)) (IssuedTracker s) \<and>
     IssuedAfterBranch s' = 0 \<and>
     RS s' = (map (\<lambda>rs. if js_num (PC_Original rs) > p then squash rs else rs) (RS s))
               [k := release (RS s ! k)] \<and>
     Registers s' = Registers s \<and>
     list_all (\<lambda>rs. js_num (PC_Original rs) > p \<longrightarrow>
                  \<not> busy rs \<and> result rs = None \<and> Vj rs = None \<and> Vk rs = None \<and>
                  Qj rs = None \<and> Qk rs = None) (RS s')"
proof -
  let ?t = "resolve_BEQ s k"
  have same: "RS ?t ! k = RS s ! k"
    using assms(1,7) by (simp add: resolve_taken(7) [OF assms(5)])
  obtain s' where s': "retire ?t k = Inr s'" "PC s' = PC ?t"
    "isBranchPending s' = isBranchPending ?t" "branchMispredictions s' = branchMispredictions ?t"
    "IssuedTracker s' = IssuedTracker ?t" "IssuedAfterBranch s' = IssuedAfterBranch ?t"
    "Registers s' = Registers ?t" "RS s' = (RS ?t)[k := release (RS ?t ! k)]"
    using retire_shape [of ?t k i c] assms(8,9) same by auto
  have e: "execute_station s k = Inr s'"
    using assms(2,3,4) s'(1) by (simp add: execute_station_def execute_BEQ_def Let_def OpCode_defs)
  have tr: "IssuedTracker s' =
      take (length (IssuedTracker s) - nat (IssuedAfterBranch s)) (IssuedTracker s)"
    using assms(10) by (simp add: s'(5) resolve_taken(4) [OF assms(5)] splice_tail tracker_count_def)
  have rs: "RS s' = (map (\<lambda>rs. if js_num (PC_Original rs) > p then squash rs else rs) (RS s))
               [k := release (RS s ! k)]"
    unfolding s'(8) same by (simp add: resolve_taken(7) [OF assms(5)] assms(7) js_num_def)
  have sq: "list_all (\<lambda>rs. js_num (PC_Original rs) > p \<longrightarrow>
                  \<not> busy rs \<and> result rs = None \<and> Vj rs = None \<and> Vk rs = None \<and>
                  Qj rs = None \<and> Qk rs = None) (RS s')"
    unfolding rs
    by (rule list_all_update) (auto simp: list_all_iff squash_def release_def js_num_def)
  show ?thesis
    using e tr rs sq assms(6,7)
    by (simp add: s' resolve_taken [OF assms(5)] js_num_def)
qed

lemma branch_pre_facts:
  "0 < length (RS branch_pre) \<and> unit (RS branch_pre ! 0) = BEQ \<and> busy (RS branch_pre ! 0) \<and>
   cycles_passed (RS branch_pre ! 0) = cycles_needed (RS branch_pre ! 0) \<and>
   Vj (RS branch_pre ! 0) = Vk (RS branch_pre ! 0) \<and> A (RS branch_pre ! 0) = Some 2 \<and>
   PC_Original (RS branch_pre ! 0) = Some 0 \<and> instruction (RS branch_pre ! 0) = Some BEQ_sample \<and>
   clone BEQ_sample = Inr BEQ_sample \<and> tracker_count branch_pre \<and>
   IssuedAfterBranch branch_pre = 2 \<and> length (IssuedTracker branch_pre) = 3 \<and>
   map busy (RS branch_pre) = [True, True, True] \<and>
   map busy ((map (\<lambda>rs. if js_num (PC_Original rs) > 0 then squash rs else rs) (RS branch_pre))
               [0 := release (RS branch_pre ! 0)]) = [False, False, False]"
  by code_simp

text \<open>The branch program: \<open>BEQ R1,R2,+2\<close> at the address 0 is taken with two additions
  behind it. \<open>PC\<close> becomes 3, the issued tracker keeps the branch alone, all three stations
  are free and the block has written no register.\<close>

lemma BEQ_block_taken_branch_program:
  "0 < length (RS branch_pre) \<and> unit (RS branch_pre ! 0) = BEQ \<and> busy (RS branch_pre ! 0) \<and>
   cycles_passed (RS branch_pre ! 0) = cycles_needed (RS branch_pre ! 0) \<and>
   Vj (RS branch_pre ! 0) = Vk (RS branch_pre ! 0) \<and> A (RS branch_pre ! 0) = Some 2 \<and>
   PC_Original (RS branch_pre ! 0) = Some 0 \<and> instruction (RS branch_pre ! 0) = Some BEQ_sample \<and>
   clone BEQ_sample = Inr BEQ_sample \<and> tracker_count branch_pre \<and>
   map busy (RS branch_pre) = [True, True, True] \<and>
   (\<exists>s'. execute_station branch_pre 0 = Inr s' \<and> PC s' = 3 \<and> \<not> isBranchPending s' \<and>
      branchMispredictions s' = branchMispredictions branch_pre + 1 \<and>
      IssuedTracker s' = take 1 (IssuedTracker branch_pre) \<and> IssuedAfterBranch s' = 0 \<and>
      map busy (RS s') = [False, False, False] \<and> Registers s' = Registers branch_pre)"
proof -
  note f = branch_pre_facts
  from f have h: "0 < length (RS branch_pre)" "unit (RS branch_pre ! 0) = BEQ"
    "busy (RS branch_pre ! 0)"
    "cycles_passed (RS branch_pre ! 0) = cycles_needed (RS branch_pre ! 0)"
    "Vj (RS branch_pre ! 0) = Vk (RS branch_pre ! 0)" "A (RS branch_pre ! 0) = Some 2"
    "PC_Original (RS branch_pre ! 0) = Some 0" "instruction (RS branch_pre ! 0) = Some BEQ_sample"
    "clone BEQ_sample = Inr BEQ_sample" "tracker_count branch_pre"
    by simp_all
  from BEQ_block_taken [OF h] obtain s' where s':
    "execute_station branch_pre 0 = Inr s'" "PC s' = 2 + 0 + 1" "\<not> isBranchPending s'"
    "branchMispredictions s' = branchMispredictions branch_pre + 1"
    "IssuedTracker s' = take (length (IssuedTracker branch_pre) - nat (IssuedAfterBranch branch_pre))
       (IssuedTracker branch_pre)"
    "IssuedAfterBranch s' = 0"
    "RS s' = (map (\<lambda>rs. if js_num (PC_Original rs) > 0 then squash rs else rs) (RS branch_pre))
               [0 := release (RS branch_pre ! 0)]"
    "Registers s' = Registers branch_pre"
    by blast
  have "map busy (RS s') = [False, False, False]"
    unfolding s'(7) using f by simp
  moreover have "IssuedTracker s' = take 1 (IssuedTracker branch_pre)"
    unfolding s'(5) using f by simp
  ultimately show ?thesis
    using h s' f by auto
qed

lemma squashed_run:
  "case steps 3 rename_state of Inl err \<Rightarrow> False | Inr s3 \<Rightarrow>
     (case steps 8 rename_state of Inl err \<Rightarrow> False | Inr s8 \<Rightarrow>
        (case steps 8 skip_state of Inl err \<Rightarrow> False | Inr r8 \<Rightarrow>
           branchMispredictions s3 = 1 \<and> PC s3 = 3 \<and> map busy (RS s3) = [False, False, False] \<and>
           map (Registers s3) [0..7] = [0, 5, 5, 3, 2, 1, 7, 100] \<and>
           map busy (RS s8) = [False, False, False] \<and>
           map (Registers s8) [0..7] = [0, 5, 5, 12, 2, 1, 7, 100] \<and>
           branchMispredictions r8 = 1 \<and> map busy (RS r8) = [False, False, False] \<and>
           map (Registers r8) [0..7] = [0, 5, 5, 3, 12, 1, 7, 100]))"
  by code_simp

lemma nested_run:
  "case steps 6 nested_state of Inl err \<Rightarrow> False | Inr t6 \<Rightarrow>
     (case steps 7 nested_state of Inl err \<Rightarrow> False | Inr t7 \<Rightarrow>
        map name (RS t6) = [''BEQ1'', ''BEQ2'', ''ADD1''] \<and>
        map busy (RS t6) = [True, False, False] \<and> PC_Original (RS t6 ! 0) = Some 0 \<and>
        branchMispredictions t6 = 0 \<and> Registers t6 5 = 107 \<and>
        branchMispredictions t7 = 1 \<and> PC t7 = 4 \<and> map busy (RS t7) = [False, False, False] \<and>
        map (Registers t7) [0..7] = [0, 5, 5, 3, 2, 107, 7, 100])"
  by code_simp

text \<open>
  Claim C5 fails on the code in its last clause: the register file of a run is not left as
  it would be without the instructions behind a taken branch.

  In the program \<open>BEQ R1,R2,+2; ADD R3,R1,R1; ADD R4,R1,R1; ADD R4,R1,R6\<close> on the registers
  \<open>[0,5,5,3,2,1,7,100]\<close> the branch is taken in the third cycle, both additions behind it
  are squashed and no register has changed. The squash leaves their entries of
  \<open>RegisterStatus\<close>, so the result 12 of \<open>ADD R4,R1,R6\<close> at the branch target goes to
  register 3: the run ends with \<open>[0,5,5,12,2,1,7,100]\<close>. The same program without the two
  squashed additions ends with \<open>[0,5,5,3,12,1,7,100]\<close>.

  In the program \<open>BEQ R1,R2,+3; BEQ R3,R4,+1; ADD R5,R6,R7\<close> with two BEQ stations the
  younger branch is resolved first and clears \<open>isBranchPending\<close> while the older one is
  still busy. The addition behind both executes and writes its result: after six cycles the
  older branch (fetched at the address 0) is still busy and \<open>R5 = 107\<close>. In the seventh
  cycle that branch is taken to the address 4, and \<open>R5\<close> keeps the result of the addition
  at the address 2, which the taken branch skips.
\<close>

theorem taken_branch_changes_registers:
  "\<exists>s3 s8 r8 t6 t7.
     steps 3 rename_state = Inr s3 \<and> steps 8 rename_state = Inr s8 \<and>
     steps 8 skip_state = Inr r8 \<and>
     branchMispredictions s3 = 1 \<and> PC s3 = 3 \<and> map busy (RS s3) = [False, False, False] \<and>
     map (Registers s3) [0..7] = [0, 5, 5, 3, 2, 1, 7, 100] \<and>
     map busy (RS s8) = [False, False, False] \<and>
     map (Registers s8) [0..7] = [0, 5, 5, 12, 2, 1, 7, 100] \<and>
     branchMispredictions r8 = 1 \<and> map busy (RS r8) = [False, False, False] \<and>
     map (Registers r8) [0..7] = [0, 5, 5, 3, 12, 1, 7, 100] \<and>
     steps 6 nested_state = Inr t6 \<and> steps 7 nested_state = Inr t7 \<and>
     map name (RS t6) = [''BEQ1'', ''BEQ2'', ''ADD1''] \<and>
     map busy (RS t6) = [True, False, False] \<and> PC_Original (RS t6 ! 0) = Some 0 \<and>
     branchMispredictions t6 = 0 \<and> Registers t6 5 = 107 \<and>
     branchMispredictions t7 = 1 \<and> PC t7 = 4 \<and> map busy (RS t7) = [False, False, False] \<and>
     map (Registers t7) [0..7] = [0, 5, 5, 3, 2, 107, 7, 100]"
proof -
  from squashed_run obtain s3 s8 r8 where s: "steps 3 rename_state = Inr s3"
      "steps 8 rename_state = Inr s8" "steps 8 skip_state = Inr r8"
    and r: "branchMispredictions s3 = 1" "PC s3 = 3" "map busy (RS s3) = [False, False, False]"
      "map (Registers s3) [0..7] = [0, 5, 5, 3, 2, 1, 7, 100]"
      "map busy (RS s8) = [False, False, False]"
      "map (Registers s8) [0..7] = [0, 5, 5, 12, 2, 1, 7, 100]"
      "branchMispredictions r8 = 1" "map busy (RS r8) = [False, False, False]"
      "map (Registers r8) [0..7] = [0, 5, 5, 3, 12, 1, 7, 100]"
    by (auto split: sum.splits)
  from nested_run obtain t6 t7 where t: "steps 6 nested_state = Inr t6"
      "steps 7 nested_state = Inr t7"
    and u: "map name (RS t6) = [''BEQ1'', ''BEQ2'', ''ADD1'']"
      "map busy (RS t6) = [True, False, False]" "PC_Original (RS t6 ! 0) = Some 0"
      "branchMispredictions t6 = 0" "Registers t6 5 = 107"
      "branchMispredictions t7 = 1" "PC t7 = 4" "map busy (RS t7) = [False, False, False]"
      "map (Registers t7) [0..7] = [0, 5, 5, 3, 2, 107, 7, 100]"
    by (auto split: sum.splits)
  show ?thesis
    using s r t u
    by (intro exI [of _ s3] exI [of _ s8] exI [of _ r8] exI [of _ t6] exI [of _ t7]) simp
qed

section \<open>A cycle of a reachable state returns\<close>

subsection \<open>\<open>decode\<close> is total and its instructions are valid\<close>

lemma field3: "0 \<le> js_and x 7 \<and> js_and x 7 \<le> 7"
proof -
  have "take_bit 3 x < (2::int) ^ 3" by (rule take_bit_int_less_exp)
  then show ?thesis by (simp add: js_and_7)
qed

lemma sign_extended_range:
  assumes "k < 31" "m = Suc k" and e: "\<And>n. bit e n \<longleftrightarrow> k < n \<and> n < 32"
  shows "- (2 ^ k) \<le> (if js_and (take_bit m w) (2 ^ k) \<noteq> 0 then js_or (take_bit m w) e else take_bit m w) \<and>
         (if js_and (take_bit m w) (2 ^ k) \<noteq> 0 then js_or (take_bit m w) e else take_bit m w) < 2 ^ k"
proof -
  let ?g = "signed_take_bit k w"
  have r: "- (2 ^ k) \<le> ?g" "?g < 2 ^ k"
    by (simp_all add: signed_take_bit_int_greater_eq_minus_exp signed_take_bit_int_less_exp)
  have t: "take_bit m ?g = take_bit m w"
    using assms(2) by (simp add: take_bit_signed_take_bit)
  show ?thesis
    using sign_extend [OF assms(1,2) r e] r unfolding t by simp
qed

lemma offset_range:
  "- 16 \<le> (if js_and (js_and w 31) 16 \<noteq> 0 then js_or (js_and w 31) 4294967264 else js_and w 31) \<and>
   (if js_and (js_and w 31) 16 \<noteq> 0 then js_or (js_and w 31) 4294967264 else js_and w 31) \<le> 15"
  using sign_extended_range [of 4 5 4294967264 w, OF _ _ ext5] by (auto simp: js_and_31 split: if_splits)

lemma label_range:
  "- 64 \<le> (if js_and (js_and w 127) 64 \<noteq> 0 then js_or (js_and w 127) 4294967168 else js_and w 127) \<and>
   (if js_and (js_and w 127) 64 \<noteq> 0 then js_or (js_and w 127) 4294967168 else js_and w 127) \<le> 63"
  using sign_extended_range [of 6 7 4294967168 w, OF _ _ ext7] by (auto simp: js_and_127 split: if_splits)

lemma Instruction_new_mem:
  assumes "0 \<le> a" "a \<le> 7" "0 \<le> b" "b \<le> 7" "-16 \<le> f" "f \<le> 15"
  shows "Instruction_new \<lparr>init_opcode = Some oc, init_rA = Some a, init_rB = Some b,
           init_rC = None, init_offset = Some f, init_label = None\<rparr> =
         Inr \<lparr>opcode = oc, rA = Some a, rB = Some b, rC = None, offset = Some f, label = None\<rparr>"
  using assms by (simp add: ctor_defs)

lemma Instruction_new_reg:
  assumes "0 \<le> a" "a \<le> 7" "0 \<le> b" "b \<le> 7" "0 \<le> c" "c \<le> 7"
  shows "Instruction_new \<lparr>init_opcode = Some oc, init_rA = Some a, init_rB = Some b,
           init_rC = Some c, init_offset = None, init_label = None\<rparr> =
         Inr \<lparr>opcode = oc, rA = Some a, rB = Some b, rC = Some c, offset = None, label = None\<rparr>"
  using assms by (simp add: ctor_defs)

lemma Instruction_new_call:
  assumes "-64 \<le> l" "l \<le> 63"
  shows "Instruction_new \<lparr>init_opcode = Some oc, init_rA = None, init_rB = None,
           init_rC = None, init_offset = None, init_label = Some l\<rparr> =
         Inr \<lparr>opcode = oc, rA = None, rB = None, rC = None, offset = None, label = Some l\<rparr>"
  using assms by (simp add: ctor_defs)

text \<open>What \<open>decode\<close> returns, for every number: an instruction of one of three shapes.\<close>

lemma decode_shapes:
  "\<exists>i. decode w = Inr i \<and>
     ((opcode i = CALL \<and> (\<exists>l. -64 \<le> l \<and> l \<le> 63 \<and>
         i = \<lparr>opcode = CALL, rA = None, rB = None, rC = None, offset = None, label = Some l\<rparr>)) \<or>
      ((opcode i = LOAD \<or> opcode i = STORE \<or> opcode i = BEQ) \<and>
         (\<exists>a b f. 0 \<le> a \<and> a \<le> 7 \<and> 0 \<le> b \<and> b \<le> 7 \<and> -16 \<le> f \<and> f \<le> 15 \<and>
            i = \<lparr>opcode = opcode i, rA = Some a, rB = Some b, rC = None, offset = Some f, label = None\<rparr>)) \<or>
      (opcode i \<noteq> CALL \<and> opcode i \<noteq> LOAD \<and> opcode i \<noteq> STORE \<and> opcode i \<noteq> BEQ \<and>
         (\<exists>a b c. 0 \<le> a \<and> a \<le> 7 \<and> 0 \<le> b \<and> b \<le> 7 \<and> 0 \<le> c \<and> c \<le> 7 \<and>
            i = \<lparr>opcode = opcode i, rA = Some a, rB = Some b, rC = Some c, offset = None, label = None\<rparr>)))"
proof -
  let ?oc = "js_and (js_shr w 12) 15"
  consider "?oc = CALL" | "?oc = LOAD \<or> ?oc = STORE \<or> ?oc = BEQ"
    | "?oc \<noteq> CALL" "\<not> (?oc = LOAD \<or> ?oc = STORE \<or> ?oc = BEQ)"
    by blast
  then show ?thesis
  proof cases
    case 1
    then show ?thesis
      using label_range [of w] Instruction_new_call
      by (auto simp: decode_def Let_def)
  next
    case 2
    then have "?oc \<noteq> CALL" by (auto simp: OpCode_defs)
    then show ?thesis
      using 2 offset_range [of w] field3 [of "js_shr w 9"] field3 [of "js_shr w 6"]
        Instruction_new_mem
      by (auto simp: decode_def Let_def)
  next
    case 3
    then show ?thesis
      using field3 [of "js_shr w 9"] field3 [of "js_shr w 6"] field3 [of "js_shr w 3"]
        Instruction_new_reg
      by (auto simp: decode_def Let_def)
  qed
qed

lemma decode_sound: "\<exists>i. decode w = Inr i \<and> clone i = Inr i"
proof -
  from decode_shapes [of w] obtain i where i: "decode w = Inr i"
    and s: "(\<exists>l. -64 \<le> l \<and> l \<le> 63 \<and>
         i = \<lparr>opcode = CALL, rA = None, rB = None, rC = None, offset = None, label = Some l\<rparr>) \<or>
      (\<exists>a b f. 0 \<le> a \<and> a \<le> 7 \<and> 0 \<le> b \<and> b \<le> 7 \<and> -16 \<le> f \<and> f \<le> 15 \<and>
            i = \<lparr>opcode = opcode i, rA = Some a, rB = Some b, rC = None, offset = Some f, label = None\<rparr>) \<or>
      (\<exists>a b c. 0 \<le> a \<and> a \<le> 7 \<and> 0 \<le> b \<and> b \<le> 7 \<and> 0 \<le> c \<and> c \<le> 7 \<and>
            i = \<lparr>opcode = opcode i, rA = Some a, rB = Some b, rC = Some c, offset = None, label = None\<rparr>)"
    by blast
  from s have "clone i = Inr i"
  proof (elim disjE exE conjE)
    fix l assume "-64 \<le> l" "l \<le> 63"
      "i = \<lparr>opcode = CALL, rA = None, rB = None, rC = None, offset = None, label = Some l\<rparr>"
    then show ?thesis using Instruction_new_call [of l CALL] by (simp add: clone_def)
  next
    fix a b f assume "0 \<le> a" "a \<le> 7" "0 \<le> b" "b \<le> 7" "-16 \<le> f" "f \<le> 15"
      "i = \<lparr>opcode = opcode i, rA = Some a, rB = Some b, rC = None, offset = Some f, label = None\<rparr>"
    then show ?thesis
      using Instruction_new_mem [of a b f "opcode i"] by (simp add: clone_def) (metis Instruction.select_convs)
  next
    fix a b c assume "0 \<le> a" "a \<le> 7" "0 \<le> b" "b \<le> 7" "0 \<le> c" "c \<le> 7"
      "i = \<lparr>opcode = opcode i, rA = Some a, rB = Some b, rC = Some c, offset = None, label = None\<rparr>"
    then show ?thesis
      using Instruction_new_reg [of a b c "opcode i"] by (simp add: clone_def) (metis Instruction.select_convs)
  qed
  then show ?thesis using i by blast
qed

subsection \<open>A cycle of a well-formed engine returns a well-formed engine\<close>

lemma find_station_Some:
  "find_station u rs n = Some k \<Longrightarrow>
   n \<le> k \<and> k - n < length rs \<and> unit (rs ! (k - n)) = u \<and> \<not> busy (rs ! (k - n))"
proof (induction rs arbitrary: n)
  case Nil
  then show ?case by simp
next
  case (Cons e es)
  show ?case
  proof (cases "busy e = False \<and> unit e = u")
    case True
    then show ?thesis using Cons.prems by simp
  next
    case False
    then have "find_station u es (Suc n) = Some k" using Cons.prems by auto
    from Cons.IH [OF this] show ?thesis
      by (auto simp: Suc_diff_Suc less_eq_Suc_le)
  qed
qed

lemma find_station_0:
  "find_station u rs 0 = Some k \<Longrightarrow> k < length rs \<and> unit (rs ! k) = u \<and> \<not> busy (rs ! k)"
  using find_station_Some [of u rs 0 k] by simp

lemma well_formedI:
  assumes "list_all station_ok (RS s)" "list_all entry_ok (IssuedTracker s)" "tracker_count s"
  shows "well_formed s"
  using assms by (simp add: well_formed_def)

lemma station_ok_updates:
  "station_ok (e\<lparr>cycles_passed := c\<rparr>) = station_ok e"
  "station_ok (e\<lparr>result := r\<rparr>) = station_ok e"
  "station_ok (e\<lparr>A := Some x\<rparr>) = station_ok (e\<lparr>A := Some y\<rparr>)"
  "station_ok e \<Longrightarrow> station_ok (e\<lparr>A := Some x\<rparr>)"
  by (auto simp: station_ok_def)

lemma station_ok_advance: "station_ok (advance r) = station_ok r"
  by (simp add: advance_def station_ok_def)

lemma station_ok_release: "station_ok (release r)"
  by (simp add: release_def station_ok_def)

lemma station_ok_squash: "station_ok (squash r)"
  by (simp add: squash_def station_ok_def)

lemma station_ok_wakeup: "station_ok (wakeup n v r) = station_ok r"
  by (simp add: wakeup_def Let_def station_ok_def)

lemma wf_incrementCyclesPassed: "well_formed s \<Longrightarrow> well_formed (incrementCyclesPassed s)"
  by (simp add: well_formed_def incrementCyclesPassed_def list_all_iff station_ok_advance
      tracker_count_def)

lemma count_after_branch_bounds:
  "tracker_count s \<Longrightarrow> 0 \<le> count_after_branch s \<and>
     count_after_branch s \<le> int (length (IssuedTracker s)) + 1"
  by (simp add: tracker_count_def count_after_branch_def)

lemma wf_Issue_LOAD:
  assumes "well_formed s" "clone i = Inr i" "unit (RS s ! k) \<noteq> BEQ"
  shows "well_formed (Issue_LOAD s i k)"
proof -
  obtain vj qj where c: "capture s (the (rB i)) = (vj, qj)" by fastforce
  show ?thesis
    using assms count_after_branch_bounds [of s]
    by (auto simp: Issue_LOAD_def Let_def c well_formed_def tracker_count_def entry_ok_def
        station_ok_def intro!: list_all_update)
qed

lemma wf_Issue_STORE:
  assumes "well_formed s" "clone i = Inr i" "unit (RS s ! k) \<noteq> BEQ"
  shows "well_formed (Issue_STORE s i k)"
proof -
  obtain vj qj where c: "capture s (the (rB i)) = (vj, qj)" by fastforce
  obtain vk qk where d: "capture s (the (rA i)) = (vk, qk)" by fastforce
  show ?thesis
    using assms count_after_branch_bounds [of s]
    by (auto simp: Issue_STORE_def Let_def c d well_formed_def tracker_count_def entry_ok_def
        station_ok_def intro!: list_all_update)
qed

lemma wf_Issue_ALU:
  assumes "well_formed s" "clone i = Inr i" "unit (RS s ! k) \<noteq> BEQ"
  shows "well_formed (Issue_ALU s i k)"
proof -
  obtain vj qj where c: "capture s (the (rB i)) = (vj, qj)" by fastforce
  obtain vk qk where d: "capture s (the (rC i)) = (vk, qk)" by fastforce
  show ?thesis
    using assms count_after_branch_bounds [of s]
    by (auto simp: Issue_ALU_def Let_def c d well_formed_def tracker_count_def entry_ok_def
        station_ok_def intro!: list_all_update)
qed

lemma wf_Issue_BEQ:
  assumes "well_formed s" "clone i = Inr i" "offset i \<noteq> None"
  shows "well_formed (Issue_BEQ s i k)"
proof -
  obtain vj qj where c: "capture s (the (rA i)) = (vj, qj)" by fastforce
  obtain vk qk where d: "capture s (the (rB i)) = (vk, qk)" by fastforce
  show ?thesis
    using assms count_after_branch_bounds [of s]
    by (auto simp: Issue_BEQ_def Let_def c d well_formed_def tracker_count_def entry_ok_def
        station_ok_def intro!: list_all_update)
qed

lemma wf_Issue_CALL:
  assumes "well_formed s" "clone i = Inr i" "unit (RS s ! k) \<noteq> BEQ"
  shows "well_formed (Issue_CALL s i k)"
  using assms count_after_branch_bounds [of s]
  by (auto simp: Issue_CALL_def Let_def well_formed_def tracker_count_def entry_ok_def
      station_ok_def intro!: list_all_update)

lemma wf_Issue_instr:
  assumes "well_formed s" "decode w = Inr i"
  shows "well_formed (Issue_instr s i)"
proof -
  from decode_sound [of w] assms(2) have c: "clone i = Inr i" by auto
  have o: "offset i \<noteq> None" if "opcode i = BEQ"
    using decode_shapes [of w] assms(2) that by (auto simp: OpCode_defs)
  have u: "unit (RS s ! k) \<noteq> BEQ" if "find_station v (RS s) 0 = Some k" "v \<noteq> BEQ" for v k
    using find_station_0 [OF that(1)] that(2) by simp
  have v: "unit_of x \<noteq> BEQ" for x
    by (simp add: unit_of_def OpCode_defs)
  show ?thesis
    unfolding Issue_instr_def
    using assms(1) c o u v
    by (auto simp: wf_Issue_LOAD wf_Issue_STORE wf_Issue_ALU wf_Issue_BEQ wf_Issue_CALL OpCode_defs
        split: option.splits)
qed

lemma wf_Issue:
  assumes "well_formed s"
  shows "well_formed (Issue s)"
proof -
  let ?w = "uint (Memory s (PC s))"
  obtain i where i: "decode ?w = Inr i" using decode_sound [of ?w] by blast
  show ?thesis
    using assms wf_Issue_instr [OF assms i] by (simp add: Issue_def Let_def i)
qed

lemma wf_frame:
  "well_formed s \<Longrightarrow> RS t = RS s \<Longrightarrow> IssuedTracker t = IssuedTracker s \<Longrightarrow>
   IssuedAfterBranch t = IssuedAfterBranch s \<Longrightarrow> well_formed t"
  by (simp add: well_formed_def tracker_count_def)

lemma wf_station: "well_formed s \<Longrightarrow> k < length (RS s) \<Longrightarrow> station_ok (RS s ! k)"
  by (simp add: well_formed_def list_all_nth)

lemma wf_update:
  assumes "well_formed s" "k < length (RS s) \<Longrightarrow> station_ok e"
    "RS t = (RS s)[k := e]" "IssuedTracker t = IssuedTracker s"
    "IssuedAfterBranch t = IssuedAfterBranch s"
  shows "well_formed t"
  using assms by (simp add: well_formed_def tracker_count_def list_all_update)

lemma clone_of_busy:
  "station_ok e \<Longrightarrow> busy e \<Longrightarrow> \<exists>c. clone_of (instruction e) = Inr c"
  by (auto simp: station_ok_def clone_of_def split: option.splits)

lemma wf_address_phase: "well_formed s \<Longrightarrow> well_formed (address_phase s k)"
  unfolding address_phase_def Let_def
  by (auto intro!: wf_update [where k = k and s = s and e = "(RS s ! k)\<lparr>A := Some _\<rparr>"]
      simp: station_ok_updates wf_station)

lemma wf_stall: "well_formed s \<Longrightarrow> well_formed (stall s k)"
  unfolding stall_def
  by (rule wf_update [where k = k and s = s and e = "(RS s ! k)\<lparr>cycles_passed := cycles_needed (RS s ! k) - 1\<rparr>"])
    (simp_all add: station_ok_updates wf_station)

lemma length_address_phase: "length (RS (address_phase s k)) = length (RS s)"
  by (simp add: address_phase_def Let_def)

lemma wf_retire:
  assumes "well_formed s" "k < length (RS s)" "busy (RS s ! k)"
  shows "\<exists>s'. retire s k = Inr s' \<and> well_formed s' \<and> length (RS s') = length (RS s)"
proof -
  obtain c where c: "clone_of (instruction (RS s ! k)) = Inr c"
    using clone_of_busy [OF wf_station [OF assms(1,2)] assms(3)] by blast
  show ?thesis
    unfolding retire_def Let_def c
    by (auto intro!: wf_update [OF assms(1), where k = k and e = "release (RS s ! k)"]
        simp: station_ok_release)
qed

lemma wf_finish:
  assumes "well_formed s" "k < length (RS s)" "busy (RS s ! k)"
  shows "\<exists>s'. finish s k r = Inr s' \<and> well_formed s' \<and> length (RS s') = length (RS s)"
proof -
  obtain c where c: "clone_of (instruction (RS s ! k)) = Inr c"
    using clone_of_busy [OF wf_station [OF assms(1,2)] assms(3)] by blast
  show ?thesis
    unfolding finish_def Let_def c
    by (auto intro!: wf_update [OF assms(1), where k = k and e = "(RS s ! k)\<lparr>result := r\<rparr>"]
        simp: station_ok_updates wf_station [OF assms(1,2)])
qed

lemma wf_execute_LOAD:
  assumes "well_formed s" "k < length (RS s)"
  shows "\<exists>s'. execute_LOAD s k = Inr s' \<and> well_formed s' \<and> length (RS s') = length (RS s)"
proof -
  let ?t = "address_phase s k"
  note t = wf_address_phase [OF assms(1), of k]
  have l: "length (RS ?t) = length (RS s)" by (rule length_address_phase)
  have k: "k < length (RS ?t)" using assms(2) l by simp
  show ?thesis
  proof (cases "busy (RS ?t ! k) \<and> cycles_passed (RS ?t ! k) = cycles_needed (RS ?t ! k) \<and>
      \<not> isBranchPending ?t")
    case False
    then show ?thesis using t l by (auto simp: execute_LOAD_def Let_def)
  next
    case True
    show ?thesis
    proof (cases "LOAD_hazard ?t k")
      case True
      then show ?thesis
        using \<open>busy (RS ?t ! k) \<and> _\<close> wf_stall [OF t, of k] l
        by (auto simp: execute_LOAD_def Let_def stall_def)
    next
      case False
      obtain c where c: "clone_of (instruction (RS ?t ! k)) = Inr c"
        using clone_of_busy [OF wf_station [OF t k]] True by blast
      have "well_formed (?t\<lparr>RS := (RS ?t)[k := (RS ?t ! k)\<lparr>result := Memory_read ?t (A (RS ?t ! k))\<rparr>],
          ExecutedTracker := ExecutedTracker ?t @ [\<lparr>t_Instruction = c, t_clock = clock ?t, t_RS = k\<rparr>]\<rparr>)"
        by (rule wf_update [OF t, where k = k and e = "(RS ?t ! k)\<lparr>result := Memory_read ?t (A (RS ?t ! k))\<rparr>"])
          (simp_all add: station_ok_updates wf_station [OF t k])
      then show ?thesis
        using True False c l by (simp add: execute_LOAD_def Let_def)
    qed
  qed
qed

lemma wf_execute_STORE:
  assumes "well_formed s" "k < length (RS s)"
  shows "\<exists>s'. execute_STORE s k = Inr s' \<and> well_formed s' \<and> length (RS s') = length (RS s)"
proof -
  let ?t = "address_phase s k"
  note t = wf_address_phase [OF assms(1), of k]
  have l: "length (RS ?t) = length (RS s)" by (rule length_address_phase)
  have k: "k < length (RS ?t)" using assms(2) l by simp
  show ?thesis
  proof (cases "busy (RS ?t ! k) \<and> cycles_passed (RS ?t ! k) = cycles_needed (RS ?t ! k) \<and>
      \<not> isBranchPending ?t")
    case False
    then show ?thesis using t l by (auto simp: execute_STORE_def Let_def)
  next
    case True
    show ?thesis
    proof (cases "STORE_hazard ?t k")
      case True
      then show ?thesis
        using \<open>busy (RS ?t ! k) \<and> _\<close> wf_stall [OF t, of k] l
        by (auto simp: execute_STORE_def Let_def stall_def)
    next
      case False
      obtain c where c: "clone_of (instruction (RS ?t ! k)) = Inr c"
        using clone_of_busy [OF wf_station [OF t k]] True by blast
      have "well_formed (?t\<lparr>Memory := m, ExecutedTracker := x, WriteBackTracker := y,
          RS := (RS ?t)[k := release (RS ?t ! k)]\<rparr>)" for m x y
        by (rule wf_update [OF t, where k = k and e = "release (RS ?t ! k)"])
          (simp_all add: station_ok_release)
      then show ?thesis
        using True False c l by (simp add: execute_STORE_def Let_def)
    qed
  qed
qed

lemma splice_take: "\<exists>n. splice xs start = take n xs"
  by (auto simp: splice_def Let_def)

lemma wf_resolve_BEQ:
  assumes "well_formed s" "k < length (RS s)"
  shows "well_formed (resolve_BEQ s k) \<and> length (RS (resolve_BEQ s k)) = length (RS s) \<and>
         RS (resolve_BEQ s k) ! k = RS s ! k"
proof (cases "Vj (RS s ! k) = Vk (RS s ! k)")
  case False
  then show ?thesis
    using assms(1) by (auto simp: resolve_BEQ_def Let_def intro: wf_frame)
next
  case True
  obtain n where n: "splice (IssuedTracker s) (int (length (IssuedTracker s)) - IssuedAfterBranch s)
      = take n (IssuedTracker s)"
    using splice_take by blast
  have "list_all entry_ok (take n (IssuedTracker s))"
    using assms(1) by (auto simp: well_formed_def list_all_iff dest: in_set_takeD)
  moreover have "list_all station_ok (map (\<lambda>rs. if js_num (PC_Original rs) > js_num (PC_Original (RS s ! k))
      then squash rs else rs) (RS s))"
    using assms(1) by (auto simp: well_formed_def list_all_iff station_ok_squash)
  ultimately show ?thesis
    using True assms(2) by (simp add: resolve_BEQ_def Let_def n well_formed_def tracker_count_def)
qed

lemma wf_execute_BEQ:
  assumes "well_formed s" "k < length (RS s)"
  shows "\<exists>s'. execute_BEQ s k = Inr s' \<and> well_formed s' \<and> length (RS s') = length (RS s)"
proof (cases "busy (RS s ! k) \<and> cycles_passed (RS s ! k) = cycles_needed (RS s ! k)")
  case False
  then show ?thesis using assms(1) by (auto simp: execute_BEQ_def Let_def)
next
  case True
  note r = wf_resolve_BEQ [OF assms]
  have "k < length (RS (resolve_BEQ s k))" "busy (RS (resolve_BEQ s k) ! k)"
    using r assms(2) True by simp_all
  from wf_retire [OF conjunct1 [OF r] this] show ?thesis
    using True r by (auto simp: execute_BEQ_def Let_def)
qed

lemma wf_execute_CALL:
  assumes "well_formed s" "k < length (RS s)"
  shows "\<exists>s'. execute_CALL s k = Inr s' \<and> well_formed s' \<and> length (RS s') = length (RS s)"
proof (cases "busy (RS s ! k) \<and> cycles_passed (RS s ! k) = cycles_needed (RS s ! k) \<and>
    \<not> isBranchPending s")
  case False
  then show ?thesis using assms(1) by (auto simp: execute_CALL_def Let_def)
next
  case True
  have w: "well_formed (resolve_CALL s k)"
    by (rule wf_frame [OF assms(1)]) (simp_all add: resolve_CALL_def Let_def)
  have "k < length (RS (resolve_CALL s k))" "busy (RS (resolve_CALL s k) ! k)"
    using assms(2) True by (simp_all add: RS_resolve_CALL)
  from wf_retire [OF w this] show ?thesis
    using True by (auto simp: execute_CALL_def Let_def RS_resolve_CALL)
qed

lemma wf_execute_station:
  assumes "well_formed s" "k < length (RS s)"
  shows "\<exists>s'. execute_station s k = Inr s' \<and> well_formed s' \<and> length (RS s') = length (RS s)"
  unfolding execute_station_def Let_def execute_ADD_def execute_NOR_def execute_MUL_def
  using wf_execute_LOAD [OF assms] wf_execute_STORE [OF assms] wf_execute_BEQ [OF assms]
    wf_execute_CALL [OF assms] wf_finish [OF assms] assms(1)
  by auto

lemma wf_execute_loop:
  assumes "well_formed s" "\<forall>k \<in> set ks. k < length (RS s)"
  shows "\<exists>s'. execute_loop ks s = Inr s' \<and> well_formed s' \<and> length (RS s') = length (RS s)"
  using assms
proof (induction ks arbitrary: s)
  case Nil
  then show ?case by simp
next
  case (Cons k ks)
  then obtain t where t: "execute_station s k = Inr t" "well_formed t" "length (RS t) = length (RS s)"
    using wf_execute_station [of s k] by auto
  from Cons.IH [OF t(2)] Cons.prems(2) t(3) obtain s' where
    "execute_loop ks t = Inr s'" "well_formed s'" "length (RS s') = length (RS t)"
    by auto
  then show ?case using t by simp
qed

lemma wf_execute:
  "well_formed s \<Longrightarrow> \<exists>s'. execute s = Inr s' \<and> well_formed s'"
  unfolding execute_def using wf_execute_loop [of s "[0..<length (RS s)]"] by auto

lemma wf_broadcast:
  assumes "well_formed s" "entry_ok entry"
  shows "\<exists>s'. broadcast s entry r = Inr s' \<and> well_formed s'"
proof -
  obtain s' where s': "broadcast s entry r = Inr s'"
    using assms(2) by (auto simp: broadcast_def Let_def entry_ok_def split: option.splits)
  have t: "IssuedTracker s' = IssuedTracker s" "IssuedAfterBranch s' = IssuedAfterBranch s"
    using s' by (auto simp: broadcast_def Let_def split: option.splits sum.splits)
  have "list_all station_ok (map (wakeup (name (RS s ! t_RS entry)) r) (RS s))"
    using assms(1) by (simp add: well_formed_def list_all_iff station_ok_wakeup)
  then have "list_all station_ok (RS s')"
    unfolding RS_broadcast [OF s'] by (rule list_all_update) (rule station_ok_release)
  then show ?thesis
    using s' t assms(1) by (simp add: well_formed_def tracker_count_def)
qed

lemma wf_WriteBack_loop:
  assumes "well_formed s" "list_all entry_ok es"
  shows "\<exists>s'. WriteBack_loop es s = Inr s' \<and> well_formed s'"
  using assms(2)
proof (induction es)
  case Nil
  then show ?case using assms(1) by simp
next
  case (Cons e es)
  then show ?case
    using wf_broadcast [OF assms(1), of e] by (auto simp: Let_def split: option.splits)
qed

lemma wf_WriteBack: "well_formed s \<Longrightarrow> \<exists>s'. WriteBack s = Inr s' \<and> well_formed s'"
  unfolding WriteBack_def by (rule wf_WriteBack_loop) (simp_all add: well_formed_def)

text \<open>A cycle of a well-formed engine does not throw.\<close>

lemma wf_step: "well_formed s \<Longrightarrow> \<exists>s'. step s = Inr s' \<and> well_formed s'"
proof -
  assume "well_formed s"
  then have "well_formed (Issue (incrementCyclesPassed s))"
    by (intro wf_Issue wf_incrementCyclesPassed)
  then obtain s3 where s3: "execute (Issue (incrementCyclesPassed s)) = Inr s3" "well_formed s3"
    using wf_execute by blast
  then obtain s4 where s4: "WriteBack s3 = Inr s4" "well_formed s4"
    using wf_WriteBack by blast
  have "well_formed (s4\<lparr>clock := clock s4 + 1\<rparr>)"
    using s4(2) by (simp add: well_formed_def tracker_count_def)
  then show ?thesis using s3 s4 by (simp add: step_def)
qed

lemma wf_outcome:
  "well_formed s \<Longrightarrow> RS (outcome r) = RS s \<Longrightarrow> IssuedTracker (outcome r) = IssuedTracker s \<Longrightarrow>
   IssuedAfterBranch (outcome r) = IssuedAfterBranch s \<Longrightarrow> well_formed (outcome r)"
  by (rule wf_frame)

lemma addInstructions_from_frame:
  "RS (outcome (addInstructions_from s is a n)) = RS s \<and>
   IssuedTracker (outcome (addInstructions_from s is a n)) = IssuedTracker s \<and>
   IssuedAfterBranch (outcome (addInstructions_from s is a n)) = IssuedAfterBranch s"
proof (induction "is" arbitrary: s n)
  case Nil
  then show ?case by (simp add: outcome_def)
next
  case (Cons i "is")
  show ?case
    using Cons.IH [of _ "n + 1"]
    by (auto simp: outcome_def and_then_def addInstruction_def split: effect.splits if_splits)
qed

lemma wf_configured: "configured s \<Longrightarrow> well_formed s"
proof (induction rule: configured.induct)
  case new
  then show ?case by (simp add: well_formed_def Tomasulo_new_def tracker_count_def)
next
  case (station s n u cn ca cm)
  then show ?case
    by (simp add: well_formed_def addReservationStation_def new_ReservationStation_def
        station_ok_def tracker_count_def)
next
  case (instrs s "is" a)
  then show ?case
    unfolding addInstructions_def using addInstructions_from_frame [of s "is" a 0]
    by (intro wf_outcome [of s]) simp_all
next
  case (instr s i a)
  then show ?case
    by (intro wf_outcome [of s]) (simp_all add: addInstruction_def outcome_def)
next
  case (data s d a)
  then show ?case
    by (intro wf_outcome [of s]) (simp_all add: addData_def outcome_def)
next
  case (start s a)
  then show ?case
    by (intro wf_outcome [of s]) (simp_all add: addStartAddress_def outcome_def)
qed (simp_all add: well_formed_def tracker_count_def)

lemma wf_reachable: "reachable s \<Longrightarrow> well_formed s"
proof (induction rule: reachable.induct)
  case (initial s)
  then show ?case by (rule wf_configured)
next
  case (cycle s s')
  then show ?case using wf_step [of s] by auto
qed

text \<open>From a reachable state every cycle returns; so does every run.\<close>

lemma reachable_step_returns: "reachable s \<Longrightarrow> \<exists>s'. step s = Inr s' \<and> reachable s'"
  using wf_step [OF wf_reachable] by (blast intro: reachable.cycle)

lemma reachable_steps_return: "reachable s \<Longrightarrow> \<exists>s'. steps n s = Inr s' \<and> reachable s'"
proof (induction n arbitrary: s)
  case 0
  then show ?case by simp
next
  case (Suc n)
  from reachable_step_returns [OF Suc.prems] obtain t where t: "step s = Inr t" "reachable t"
    by blast
  from Suc.IH [OF t(2)] show ?case using t(1) by simp
qed

text \<open>The state in which \<open>execute\<close> reaches the station \<open>k\<close> is well-formed: a busy BEQ
  station there holds its offset, its address and its instruction.\<close>

lemma wf_mid_cycle:
  assumes "reachable s" "k \<le> length (RS s)"
  shows "\<exists>t. execute_loop [0..<k] (Issue (incrementCyclesPassed s)) = Inr t \<and> well_formed t \<and>
           length (RS t) = length (RS s)"
proof -
  let ?u = "Issue (incrementCyclesPassed s)"
  have w: "well_formed ?u"
    by (intro wf_Issue wf_incrementCyclesPassed wf_reachable assms(1))
  have "length (RS ?u) = length (RS s)"
    by (rule Issue_preserves)
      (simp_all add: incrementCyclesPassed_def Issue_LOAD_def Issue_STORE_def Issue_ALU_def
        Issue_BEQ_def Issue_CALL_def Let_def split: prod.splits sum.splits)
  then show ?thesis
    using wf_execute_loop [OF w, of "[0..<k]"] assms(2) by auto
qed

lemma branch_station_ready:
  assumes "well_formed s" "k < length (RS s)" "unit (RS s ! k) = BEQ" "busy (RS s ! k)"
  shows "\<exists>a p i. A (RS s ! k) = Some a \<and> PC_Original (RS s ! k) = Some p \<and>
           instruction (RS s ! k) = Some i \<and> clone i = Inr i \<and> tracker_count s"
  using wf_station [OF assms(1,2)] assms(1,3,4)
  by (auto simp: station_ok_def well_formed_def split: option.splits)

section \<open>Register 0 stays zero\<close>

text \<open>
  Claim C7. When register 0 of a configured engine holds 0, every sequence of cycles returns,
  and after it register 0 holds 0 and its entry of the register status table is the number
  0: a broadcast that finds register 0 writes 0 there, and \<open>Issue\<close> records the number 0,
  not the station, for the destination 0.
\<close>

theorem register_zero_hardwired:
  assumes "configured s" and "Registers s 0 = 0"
  shows "\<exists>s'. steps n s = Inr s' \<and> Registers s' 0 = 0 \<and> RegisterStatus s' 0 = None"
proof -
  from reachable_steps_return [OF reachable.initial [OF assms(1)], of n]
  obtain s' where s': "steps n s = Inr s'" by blast
  have "RegisterStatus s 0 = None"
    using RegisterStatus_configured [OF assms(1)] by simp
  then show ?thesis
    using zero_steps [OF s'] assms(2) s' by simp
qed

lemma configured_zero_state: "configured zero_state"
  unfolding zero_state_def zero_setup_def by (intro configured_intros)

lemma zero_run:
  "returns (steps 4 zero_state) \<and> Registers zero_state 0 = 0 \<and>
   length (WriteBackTracker (state_of (steps 4 zero_state))) = 1 \<and>
   map busy (RS (state_of (steps 4 zero_state))) = [False]"
  by code_simp

text \<open>\<open>ADD R0,R1,R2\<close> has written back after four cycles, and register 0 holds 0.\<close>

theorem register_zero_hardwired_witness:
  "configured zero_state \<and> Registers zero_state 0 = 0 \<and>
   length (WriteBackTracker (state_of (steps 4 zero_state))) = 1 \<and>
   (\<exists>s'. steps 4 zero_state = Inr s' \<and> Registers s' 0 = 0 \<and> RegisterStatus s' 0 = None)"
proof -
  have z: "Registers zero_state 0 = 0" using zero_run by simp
  show ?thesis
    using register_zero_hardwired [OF configured_zero_state z, of 4] configured_zero_state z zero_run
    by simp
qed

end
